theory Spec2Isabelle
  imports Main "HOL-Library.Char_ord" "HOL-Library.List_Lexorder" "HOL-Library.Multiset"
begin

chapter \<open>The embedding of the text commands of filesystem.cpp\<close>

section \<open>Strings, characters and the two tokenisers\<close>

text \<open>
  A \<open>std::string\<close> is a sequence of bytes: \<^typ>\<open>string\<close>. Its \<open>operator<\<close> compares
  byte-wise (as unsigned bytes), a proper prefix being smaller: the order of
  \<open>HOL-Library.List_Lexorder\<close> over the byte order of \<open>HOL-Library.Char_ord\<close>.
\<close>

definition newline :: char where
  "newline = CHR 0x0A"

text \<open>\<open>std::isspace\<close> in the "C" locale: space, \<open>\t\<close>, \<open>\n\<close>, \<open>\v\<close>, \<open>\f\<close>, \<open>\r\<close>.\<close>

definition isspace :: "char \<Rightarrow> bool" where
  "isspace c = (c = CHR '' '' \<or> c = CHR 0x09 \<or> c = CHR 0x0A \<or> c = CHR 0x0B \<or>
                c = CHR 0x0C \<or> c = CHR 0x0D)"

text \<open>\<open>::tolower\<close> in the "C" locale: only \<open>A\<close> to \<open>Z\<close> change.\<close>

definition tolower :: "char \<Rightarrow> char" where
  "tolower c = (if CHR ''A'' \<le> c \<and> c \<le> CHR ''Z'' then char_of (of_char c + (32::nat)) else c)"

text \<open>\<open>s.find(c)\<close>: the position of the first \<open>c\<close>, \<open>None\<close> for \<open>std::string::npos\<close>.\<close>

definition find_char :: "char \<Rightarrow> string \<Rightarrow> nat option" where
  "find_char c s = (if c \<in> set s then Some (length (takeWhile (\<lambda>x. x \<noteq> c) s)) else None)"

text \<open>
  \<open>while (std::getline(stream, tok, d)) out.push_back(tok);\<close>
  A call on an exhausted stream extracts nothing and fails. Otherwise it takes the bytes up
  to the next delimiter, which it drops, or up to the end of the input. So a trailing
  delimiter opens no empty last token, and the empty input has no token at all.
\<close>

function getline_all :: "char \<Rightarrow> string \<Rightarrow> string list" where
  "getline_all d s =
     (if s = [] then []
      else (let tok = takeWhile (\<lambda>c. c \<noteq> d) s in
            case dropWhile (\<lambda>c. c \<noteq> d) s of
              [] \<Rightarrow> [tok]
            | _ # rest \<Rightarrow> tok # getline_all d rest))"
  by pat_completeness auto
termination
proof (relation "measure (\<lambda>(d, s). length s)")
  show "wf (measure (\<lambda>(d, s). length s))" by simp
next
  fix d :: char and s tok :: string and c rest
  assume "dropWhile (\<lambda>c. c \<noteq> d) s = c # rest"
  then have "length (dropWhile (\<lambda>c. c \<noteq> d) s) = Suc (length rest)" by simp
  moreover have "length (dropWhile (\<lambda>c. c \<noteq> d) s) \<le> length s" by (rule length_dropWhile_le)
  ultimately show "((d, rest), (d, s)) \<in> measure (\<lambda>(d, s). length s)" by simp
qed

text \<open>
  \<open>iss >> token\<close> on the remaining input \<open>s\<close>: leading white space is skipped, then the
  maximal run of other bytes is the token. With nothing left after the white space the
  extraction fails (\<open>None\<close>).
\<close>

definition extract_token :: "string \<Rightarrow> (string \<times> string) option" where
  "extract_token s =
     (let s' = dropWhile isspace s in
      if s' = [] then None
      else Some (takeWhile (\<lambda>c. \<not> isspace c) s', dropWhile (\<lambda>c. \<not> isspace c) s'))"

text \<open>
  \<open>for (int i = 0; i < key; i++) if (!(iss >> token)) return "";\<close> and then
  \<open>return token\<close>: the first argument counts the iterations that are left.
\<close>

fun ws_field :: "nat \<Rightarrow> string \<Rightarrow> string \<Rightarrow> string" where
  "ws_field 0 token s = token"
| "ws_field (Suc n) token s =
     (case extract_token s of
        None \<Rightarrow> []
      | Some (tok, rest) \<Rightarrow> ws_field n tok rest)"

text \<open>
  \<open>for (int i = 1; i < key; i++) { pos = temp.find(sep); if (pos == npos) return "";
  temp = temp.substr(pos + 1); }\<close>: \<open>None\<close> is the early \<open>return ""\<close>.
\<close>

fun skip_fields :: "nat \<Rightarrow> char \<Rightarrow> string \<Rightarrow> string option" where
  "skip_fields 0 sep temp = Some temp"
| "skip_fields (Suc n) sep temp =
     (case find_char sep temp of
        None \<Rightarrow> None
      | Some pos \<Rightarrow> skip_fields n sep (drop (pos + 1) temp))"

definition delim_field :: "nat \<Rightarrow> char \<Rightarrow> string \<Rightarrow> string" where
  "delim_field n sep line =
     (case skip_fields n sep line of
        None \<Rightarrow> []
      | Some temp \<Rightarrow>
          (case find_char sep temp of
             Some pos \<Rightarrow> take pos temp
           | None \<Rightarrow> temp))"

text \<open>The output loop \<open>for (line : lines) oss << line << "\n";\<close>.\<close>

definition write_lines :: "string list \<Rightarrow> string" where
  "write_lines ls = concat (map (\<lambda>l. l @ [newline]) ls)"

section \<open>The files the commands read\<close>

text \<open>
  A failure the commands raise themselves is a \<open>py::value_error\<close> with a message; an
  exception of the C++ library that escapes a command (\<open>std::invalid_argument\<close> or
  \<open>std::out_of_range\<close> of \<open>std::stoi\<close>) is a \<open>StdException\<close>. The file system is
  what the code asks of it: \<open>fs::exists\<close>, \<open>fs::is_regular_file\<close>, \<open>fs::is_directory\<close>,
  the paths a \<open>fs::recursive_directory_iterator\<close> yields, and the bytes of a file that a
  \<open>std::ifstream\<close> opens (\<open>None\<close> when \<open>is_open()\<close> is false).
\<close>

datatype error = ValueError string | StdException string

record filesystem =
  fs_exists :: "string \<Rightarrow> bool"
  fs_is_regular_file :: "string \<Rightarrow> bool"
  fs_is_directory :: "string \<Rightarrow> bool"
  fs_entries :: "string \<Rightarrow> string list"
  fs_open :: "string \<Rightarrow> string option"

definition read_lines :: "filesystem \<Rightarrow> string \<Rightarrow> error + string list" where
  "read_lines fs path =
     (case fs_open fs path of
        None \<Rightarrow> Inl (ValueError (''Cannot open file: '' @ path))
      | Some bytes \<Rightarrow> Inr (getline_all newline bytes))"

section \<open>grep: searching files for a pattern\<close>

text \<open>
  What \<open>grep_impl\<close> asks of the file system is kept as a trace, in the order of the calls:
  \<open>fs::exists\<close>, \<open>fs::is_regular_file\<close>, \<open>fs::is_directory\<close>, the traversal of a
  directory by \<open>fs::recursive_directory_iterator\<close>, and the opening and reading of a file
  by \<open>read_lines\<close>.
\<close>

datatype fs_event =
    Exists string
  | IsRegularFile string
  | IsDirectory string
  | Traverse string
  | ReadFile string

text \<open>
  The lambda \<open>collect_files\<close>: the trace of its queries and either its error or the files
  to search. A path that exists but is neither a regular file nor a directory adds no file.
\<close>

definition collect_files :: "filesystem \<Rightarrow> bool \<Rightarrow> string \<Rightarrow> fs_event list \<times> (error + string list)" where
  "collect_files fs recursive p =
     (if \<not> fs_exists fs p then
        ([Exists p], Inl (ValueError (''grep: '' @ p @ '': No such file or directory'')))
      else if fs_is_regular_file fs p then
        ([Exists p, IsRegularFile p], Inr [p])
      else if fs_is_directory fs p \<and> recursive then
        ([Exists p, IsRegularFile p, IsDirectory p, Traverse p],
         Inr (filter (fs_is_regular_file fs) (fs_entries fs p)))
      else if fs_is_directory fs p then
        ([Exists p, IsRegularFile p, IsDirectory p, IsDirectory p],
         Inl (ValueError (''grep: '' @ p @ '': Is a directory (use recursive=True)'')))
      else
        ([Exists p, IsRegularFile p, IsDirectory p, IsDirectory p], Inr []))"

text \<open>
  \<open>std::regex\<close> is a parameter of the model: \<open>regex_compile pattern icase\<close> is the
  constructor with the ECMAScript grammar, \<open>Inl what\<close> when it throws
  \<open>std::regex_error\<close>; \<open>regex_search line re\<close> is \<open>std::regex_search\<close>.
\<close>

definition line_matches :: "(string \<Rightarrow> 're \<Rightarrow> bool) \<Rightarrow> 're \<Rightarrow> bool \<Rightarrow> string \<Rightarrow> bool" where
  "line_matches regex_search re invert line =
     (let match = regex_search line re in if invert then \<not> match else match)"

text \<open>
  A loop \<open>for (file : files_to_search) { lines = read_lines(file); ... }\<close>: \<open>body\<close> is the
  rest of the loop body, acting on the result so far. A file that cannot be opened ends
  the whole call with the error of \<open>read_lines\<close>.
\<close>

fun for_files ::
  "filesystem \<Rightarrow> (string \<Rightarrow> string list \<Rightarrow> 'r \<Rightarrow> 'r) \<Rightarrow> string list \<Rightarrow> fs_event list \<Rightarrow> 'r
     \<Rightarrow> fs_event list \<times> (error + 'r)" where
  "for_files fs body [] trace result = (trace, Inr result)"
| "for_files fs body (file # files) trace result =
     (case read_lines fs file of
        Inl e \<Rightarrow> (trace @ [ReadFile file], Inl e)
      | Inr lines \<Rightarrow> for_files fs body files (trace @ [ReadFile file]) (body file lines result))"

text \<open>\<open>counts[file] = match_count\<close> on a Python dictionary, kept in insertion order.\<close>

fun dict_set :: "'k \<Rightarrow> 'v \<Rightarrow> ('k \<times> 'v) list \<Rightarrow> ('k \<times> 'v) list" where
  "dict_set k v [] = [(k, v)]"
| "dict_set k v ((k', v') # d) = (if k = k' then (k, v) # d else (k', v') # dict_set k v d)"

record grep_entry =
  entry_file :: "string option"
  entry_line_number :: "int option"
  entry_line :: string

datatype grep_result =
    Counts "(string \<times> int) list"
  | MatchingFiles "string list"
  | Results "grep_entry list"

text \<open>The three loop bodies: counting, listing the files with a match, listing the matches.\<close>

definition count_body :: "(string \<Rightarrow> bool) \<Rightarrow> string \<Rightarrow> string list \<Rightarrow> (string \<times> int) list
    \<Rightarrow> (string \<times> int) list" where
  "count_body matches file lines counts =
     dict_set file (foldl (\<lambda>match_count line. if matches line then match_count + 1 else match_count)
                      0 lines) counts"

definition files_body :: "(string \<Rightarrow> bool) \<Rightarrow> string \<Rightarrow> string list \<Rightarrow> string list \<Rightarrow> string list" where
  "files_body matches file lines matching_files =
     (if list_ex matches lines then matching_files @ [file] else matching_files)"

definition results_body ::
  "(string \<Rightarrow> bool) \<Rightarrow> bool \<Rightarrow> bool \<Rightarrow> string \<Rightarrow> string list \<Rightarrow> grep_entry list \<Rightarrow> grep_entry list" where
  "results_body matches multi_file line_numbers file lines results =
     foldl (\<lambda>results (i, line).
              if matches line
              then results @ [\<lparr>entry_file = (if multi_file then Some file else None),
                               entry_line_number = (if line_numbers then Some (int i + 1) else None),
                               entry_line = line\<rparr>]
              else results)
       results (enumerate 0 lines)"

definition word_boundary :: string where
  "word_boundary = [CHR 0x5C, CHR ''b'']"

definition grep_impl ::
  "(string \<Rightarrow> bool \<Rightarrow> string + 're) \<Rightarrow> (string \<Rightarrow> 're \<Rightarrow> bool) \<Rightarrow> filesystem \<Rightarrow>
   string \<Rightarrow> string \<Rightarrow> bool \<Rightarrow> bool \<Rightarrow> bool \<Rightarrow> bool \<Rightarrow> bool \<Rightarrow> bool \<Rightarrow> bool \<Rightarrow>
   fs_event list \<times> (error + grep_result)" where
  "grep_impl regex_compile regex_search fs pattern path ignore_case recursive line_numbers
     count_only invert files_only whole_word =
     (case collect_files fs recursive path of
        (trace, Inl e) \<Rightarrow> (trace, Inl e)
      | (trace, Inr files_to_search) \<Rightarrow>
          (let regex_pattern =
                 (if whole_word then word_boundary @ pattern @ word_boundary else pattern)
           in case regex_compile regex_pattern ignore_case of
                Inl what \<Rightarrow> (trace, Inl (ValueError (''grep: invalid regex pattern: '' @ what)))
              | Inr re \<Rightarrow>
                  (let multi_file = (length files_to_search > 1);
                       matches = line_matches regex_search re invert
                   in if count_only then
                        map_prod id (map_sum id Counts)
                          (for_files fs (count_body matches) files_to_search trace [])
                      else if files_only then
                        map_prod id (map_sum id MatchingFiles)
                          (for_files fs (files_body matches) files_to_search trace [])
                      else
                        map_prod id (map_sum id Results)
                          (for_files fs (results_body matches multi_file line_numbers)
                             files_to_search trace []))))"

subsection \<open>Instances of the parameters\<close>

text \<open>
  Stand-ins for \<open>std::regex\<close> and the file system in the examples. An expression is
  rejected when a backslash is its last character or a parenthesis has no partner, as
  \<open>std::regex\<close> rejects it (\<open>error_escape\<close>, \<open>error_paren\<close>); a backslash takes the next
  character with it. Any other expression matches the lines that contain it literally. The
  file system holds the one regular file \<open>log.txt\<close>.
\<close>

fun regex_syntax_ok :: "nat \<Rightarrow> string \<Rightarrow> bool" where
  "regex_syntax_ok opened [] = (opened = 0)"
| "regex_syntax_ok opened (c # cs) =
     (if c = CHR 0x5C then (case cs of [] \<Rightarrow> False | _ # cs' \<Rightarrow> regex_syntax_ok opened cs')
      else if c = CHR ''('' then regex_syntax_ok (opened + 1) cs
      else if c = CHR '')'' then 0 < opened \<and> regex_syntax_ok (opened - 1) cs
      else regex_syntax_ok opened cs)"

definition literal_compile :: "string \<Rightarrow> bool \<Rightarrow> string + string" where
  "literal_compile pattern icase =
     (if \<not> regex_syntax_ok 0 pattern then Inl ''regex_error''
      else Inr (if icase then map tolower pattern else pattern))"

fun literal_search :: "string \<Rightarrow> string \<Rightarrow> bool" where
  "literal_search [] re = (re = [])"
| "literal_search (c # line) re = (take (length re) (c # line) = re \<or> literal_search line re)"

definition one_file_fs :: filesystem where
  "one_file_fs =
     \<lparr>fs_exists = (\<lambda>p. p = ''log.txt''),
      fs_is_regular_file = (\<lambda>p. p = ''log.txt''),
      fs_is_directory = (\<lambda>p. False),
      fs_entries = (\<lambda>p. []),
      fs_open = (\<lambda>p. if p = ''log.txt'' then Some ''error: 1\<newline>ok\<newline>'' else None)\<rparr>"

section \<open>sort: ordering the lines of a file by a key\<close>

text \<open>The lambda \<open>get_key\<close> of \<open>sort_impl\<close>: the whole line for \<open>key <= 0\<close>, else the
  \<open>key\<close>-th white-space field (empty separator) or the \<open>key\<close>-th field between
  separators; the empty string when the line has too few fields.\<close>

definition get_key :: "int \<Rightarrow> string \<Rightarrow> string \<Rightarrow> string" where
  "get_key key separator line =
     (if key \<le> 0 then line
      else (case separator of
              [] \<Rightarrow> ws_field (nat key) [] line
            | sep # _ \<Rightarrow> delim_field (nat (key - 1)) sep line))"

text \<open>
  The three comparators. \<open>std::stod\<close> and the order of \<open>double\<close> are parameters:
  \<open>stod s = None\<close> when \<open>std::stod\<close> throws, which the \<open>catch (...)\<close> of the numeric
  comparator turns into the comparison of the two whole lines.
\<close>

definition sort_cmp ::
  "(string \<Rightarrow> 'd option) \<Rightarrow> ('d \<Rightarrow> 'd \<Rightarrow> bool) \<Rightarrow> bool \<Rightarrow> bool \<Rightarrow> int \<Rightarrow> string
     \<Rightarrow> string \<Rightarrow> string \<Rightarrow> bool" where
  "sort_cmp stod dless numeric ignore_case key separator a b =
     (if numeric then
        (case stod (get_key key separator a) of
           None \<Rightarrow> a < b
         | Some va \<Rightarrow>
             (case stod (get_key key separator b) of
                None \<Rightarrow> a < b
              | Some vb \<Rightarrow> dless va vb))
      else if ignore_case then
        map tolower (get_key key separator a) < map tolower (get_key key separator b)
      else get_key key separator a < get_key key separator b)"

text \<open>
  \<open>sort_impl\<close> on the lines it has read: \<open>std::sort\<close> with the comparator of the mode,
  then \<open>std::reverse\<close>, then \<open>std::unique\<close> with \<open>erase\<close>. \<open>std::sort\<close> is a parameter
  here: the C++ standard fixes its result only up to the order of elements that compare
  equal, and the routine of the library the program is built with, \<open>libstdcxx_sort\<close>,
  follows below.
\<close>

definition sort_lines ::
  "((string \<Rightarrow> string \<Rightarrow> bool) \<Rightarrow> string list \<Rightarrow> string list) \<Rightarrow>
   (string \<Rightarrow> 'd option) \<Rightarrow> ('d \<Rightarrow> 'd \<Rightarrow> bool) \<Rightarrow>
   bool \<Rightarrow> bool \<Rightarrow> bool \<Rightarrow> int \<Rightarrow> string \<Rightarrow> bool \<Rightarrow> string list \<Rightarrow> string list" where
  "sort_lines std_sort stod dless reverse numeric unique key separator ignore_case lines =
     (let sorted = std_sort (sort_cmp stod dless numeric ignore_case key separator) lines;
          reversed = (if reverse then rev sorted else sorted)
      in if unique then remdups_adj reversed else reversed)"

definition sort_impl ::
  "((string \<Rightarrow> string \<Rightarrow> bool) \<Rightarrow> string list \<Rightarrow> string list) \<Rightarrow>
   (string \<Rightarrow> 'd option) \<Rightarrow> ('d \<Rightarrow> 'd \<Rightarrow> bool) \<Rightarrow> filesystem \<Rightarrow>
   string \<Rightarrow> bool \<Rightarrow> bool \<Rightarrow> bool \<Rightarrow> int \<Rightarrow> string \<Rightarrow> bool \<Rightarrow> error + string" where
  "sort_impl std_sort stod dless fs path reverse numeric unique key separator ignore_case =
     (case read_lines fs path of
        Inl e \<Rightarrow> Inl e
      | Inr lines \<Rightarrow>
          Inr (write_lines
                 (sort_lines std_sort stod dless reverse numeric unique key separator
                    ignore_case lines)))"

subsection \<open>Comparators that are strict weak orderings\<close>

text \<open>
  \<open>std::sort\<close> asks for a comparator that induces a strict weak ordering: irreflexive,
  transitive, and with a transitive equivalence "neither is less than the other". Two
  lines whose keys compare equal are two lines equivalent in this sense.
\<close>

definition equiv_under :: "('a \<Rightarrow> 'a \<Rightarrow> bool) \<Rightarrow> 'a \<Rightarrow> 'a \<Rightarrow> bool" where
  "equiv_under cmp a b = (\<not> cmp a b \<and> \<not> cmp b a)"

definition strict_weak_order_on :: "'a set \<Rightarrow> ('a \<Rightarrow> 'a \<Rightarrow> bool) \<Rightarrow> bool" where
  "strict_weak_order_on S cmp =
     ((\<forall>a \<in> S. \<not> cmp a a) \<and>
      (\<forall>a \<in> S. \<forall>b \<in> S. \<forall>c \<in> S. cmp a b \<and> cmp b c \<longrightarrow> cmp a c) \<and>
      (\<forall>a \<in> S. \<forall>b \<in> S. \<forall>c \<in> S.
          equiv_under cmp a b \<and> equiv_under cmp b c \<longrightarrow> equiv_under cmp a c))"

subsection \<open>\<open>std::sort\<close> as libstdc++ implements it\<close>

text \<open>
  ShellFast is built on Linux with GCC or Clang, and both use GCC's library libstdc++
  there. It defines \<open>std::sort\<close> in \<open>bits/stl_algo.h\<close> and \<open>bits/stl_heap.h\<close>: a
  quicksort that leaves ranges of at most 16 elements unsorted and gives up for heap sort
  at depth \<open>2 * lg n\<close>, followed by one insertion sort over the whole range. The routines
  below follow that code one by one. The vector is a list, an iterator is an index into
  it, and every routine returns the vector it has changed; moving an element is copying
  it.
\<close>

definition S_threshold :: nat where
  "S_threshold = 16"

definition iter_swap :: "'a list \<Rightarrow> nat \<Rightarrow> nat \<Rightarrow> 'a list" where
  "iter_swap xs a b = xs[a := xs ! b, b := xs ! a]"

text \<open>\<open>std::__lg\<close>: the position of the highest bit set.\<close>

fun lg :: "nat \<Rightarrow> nat" where
  "lg n = (if n < 2 then 0 else 1 + lg (n div 2))"

declare lg.simps [simp del]

text \<open>
  \<open>__unguarded_linear_insert(last, comp)\<close>: the element at \<open>last\<close> moves down past the
  elements it is less than. The loop of the library has no test for the start of the
  vector; the one here stops at index 0, where the C++ would read in front of the vector.
\<close>

function linear_insert_loop ::
  "('a \<Rightarrow> 'a \<Rightarrow> bool) \<Rightarrow> 'a \<Rightarrow> 'a list \<Rightarrow> nat \<Rightarrow> 'a list" where
  "linear_insert_loop cmp val xs lst =
     (if 0 < lst \<and> cmp val (xs ! (lst - 1))
      then linear_insert_loop cmp val (xs[lst := xs ! (lst - 1)]) (lst - 1)
      else xs[lst := val])"
  by pat_completeness auto
termination
  by (relation "measure (\<lambda>(cmp, val, xs, lst). lst)") auto

declare linear_insert_loop.simps [simp del]

definition unguarded_linear_insert :: "('a \<Rightarrow> 'a \<Rightarrow> bool) \<Rightarrow> 'a list \<Rightarrow> nat \<Rightarrow> 'a list" where
  "unguarded_linear_insert cmp xs lst = linear_insert_loop cmp (xs ! lst) xs lst"

text \<open>
  \<open>__insertion_sort(first, last, comp)\<close>: an element less than the first one is moved to
  the front by \<open>std::move_backward\<close>, any other element by \<open>__unguarded_linear_insert\<close>.
\<close>

function insertion_sort_loop ::
  "('a \<Rightarrow> 'a \<Rightarrow> bool) \<Rightarrow> 'a list \<Rightarrow> nat \<Rightarrow> nat \<Rightarrow> nat \<Rightarrow> 'a list" where
  "insertion_sort_loop cmp xs first i lst =
     (if i < lst then
        (if cmp (xs ! i) (xs ! first)
         then insertion_sort_loop cmp
                (take first xs @ [xs ! i] @ take (i - first) (drop first xs) @ drop (i + 1) xs)
                first (i + 1) lst
         else insertion_sort_loop cmp (unguarded_linear_insert cmp xs i) first (i + 1) lst)
      else xs)"
  by pat_completeness auto
termination
  by (relation "measure (\<lambda>(cmp, xs, first, i, lst). lst - i)") auto

declare insertion_sort_loop.simps [simp del]

definition insertion_sort ::
  "('a \<Rightarrow> 'a \<Rightarrow> bool) \<Rightarrow> 'a list \<Rightarrow> nat \<Rightarrow> nat \<Rightarrow> 'a list" where
  "insertion_sort cmp xs first lst =
     (if first = lst then xs else insertion_sort_loop cmp xs first (first + 1) lst)"

text \<open>\<open>__unguarded_insertion_sort(first, last, comp)\<close>.\<close>

function unguarded_insertion_sort ::
  "('a \<Rightarrow> 'a \<Rightarrow> bool) \<Rightarrow> 'a list \<Rightarrow> nat \<Rightarrow> nat \<Rightarrow> 'a list" where
  "unguarded_insertion_sort cmp xs i lst =
     (if i < lst
      then unguarded_insertion_sort cmp (unguarded_linear_insert cmp xs i) (i + 1) lst
      else xs)"
  by pat_completeness auto
termination
  by (relation "measure (\<lambda>(cmp, xs, i, lst). lst - i)") auto

declare unguarded_insertion_sort.simps [simp del]

text \<open>\<open>__final_insertion_sort(first, last, comp)\<close>.\<close>

definition final_insertion_sort ::
  "('a \<Rightarrow> 'a \<Rightarrow> bool) \<Rightarrow> 'a list \<Rightarrow> nat \<Rightarrow> nat \<Rightarrow> 'a list" where
  "final_insertion_sort cmp xs first lst =
     (if lst - first > S_threshold
      then unguarded_insertion_sort cmp
             (insertion_sort cmp xs first (first + S_threshold)) (first + S_threshold) lst
      else insertion_sort cmp xs first lst)"

text \<open>\<open>__move_median_to_first(result, a, b, c, comp)\<close>: the median of the three elements
  changes places with the one at \<open>result\<close>.\<close>

definition move_median_to_first ::
  "('a \<Rightarrow> 'a \<Rightarrow> bool) \<Rightarrow> 'a list \<Rightarrow> nat \<Rightarrow> nat \<Rightarrow> nat \<Rightarrow> nat \<Rightarrow> 'a list" where
  "move_median_to_first cmp xs result a b c =
     (if cmp (xs ! a) (xs ! b) then
        (if cmp (xs ! b) (xs ! c) then iter_swap xs result b
         else if cmp (xs ! a) (xs ! c) then iter_swap xs result c
         else iter_swap xs result a)
      else if cmp (xs ! a) (xs ! c) then iter_swap xs result a
      else if cmp (xs ! b) (xs ! c) then iter_swap xs result c
      else iter_swap xs result b)"

text \<open>
  \<open>__unguarded_partition(first, last, pivot, comp)\<close>. Its two inner loops,
  \<open>while (comp(first, pivot)) ++first\<close> and \<open>while (comp(pivot, last)) --last\<close>, have no
  test for the ends of the vector either; here they stop there.
\<close>

function scan_up :: "('a \<Rightarrow> 'a \<Rightarrow> bool) \<Rightarrow> 'a list \<Rightarrow> nat \<Rightarrow> nat \<Rightarrow> nat" where
  "scan_up cmp xs pivot first =
     (if first < length xs \<and> cmp (xs ! first) (xs ! pivot)
      then scan_up cmp xs pivot (first + 1) else first)"
  by pat_completeness auto
termination
  by (relation "measure (\<lambda>(cmp, xs, pivot, first). length xs - first)") auto

declare scan_up.simps [simp del]

function scan_down :: "('a \<Rightarrow> 'a \<Rightarrow> bool) \<Rightarrow> 'a list \<Rightarrow> nat \<Rightarrow> nat \<Rightarrow> nat" where
  "scan_down cmp xs pivot lst =
     (if 0 < lst \<and> cmp (xs ! pivot) (xs ! lst)
      then scan_down cmp xs pivot (lst - 1) else lst)"
  by pat_completeness auto
termination
  by (relation "measure (\<lambda>(cmp, xs, pivot, lst). lst)") auto

declare scan_down.simps [simp del]

function unguarded_partition ::
  "('a \<Rightarrow> 'a \<Rightarrow> bool) \<Rightarrow> 'a list \<Rightarrow> nat \<Rightarrow> nat \<Rightarrow> nat \<Rightarrow> 'a list \<times> nat" where
  "unguarded_partition cmp xs first lst pivot =
     (let first' = scan_up cmp xs pivot first;
          lst' = scan_down cmp xs pivot (lst - 1)
      in if \<not> first' < lst' then (xs, first')
         else unguarded_partition cmp (iter_swap xs first' lst') (first' + 1) lst' pivot)"
  by pat_completeness auto
termination
proof (relation "measure (\<lambda>(cmp, xs, first, lst, pivot). lst)")
  show "wf (measure (\<lambda>(cmp, xs, first, lst, pivot). lst))"
    by simp
next
  fix cmp :: "'a \<Rightarrow> 'a \<Rightarrow> bool" and xs first lst pivot first' lst'
  assume f: "first' = scan_up cmp xs pivot first"
    and l: "lst' = scan_down cmp xs pivot (lst - 1)"
    and lt: "\<not> \<not> first' < lst'"
  have le: "scan_down cmp xs pivot k \<le> k" for k
    by (induction cmp xs pivot k rule: scan_down.induct)
       (subst scan_down.simps, auto intro: le_trans [OF _ diff_le_self])
  from lt have "0 < lst'" by simp
  moreover have "lst' \<le> lst - 1" using l le by simp
  ultimately have "lst' < lst" by simp
  then show "((cmp, iter_swap xs first' lst', first' + 1, lst', pivot),
              (cmp, xs, first, lst, pivot)) \<in> measure (\<lambda>(cmp, xs, first, lst, pivot). lst)"
    by simp
qed

declare unguarded_partition.simps [simp del]

text \<open>\<open>__unguarded_partition_pivot(first, last, comp)\<close>.\<close>

definition unguarded_partition_pivot ::
  "('a \<Rightarrow> 'a \<Rightarrow> bool) \<Rightarrow> 'a list \<Rightarrow> nat \<Rightarrow> nat \<Rightarrow> 'a list \<times> nat" where
  "unguarded_partition_pivot cmp xs first lst =
     (let mid = first + (lst - first) div 2
      in unguarded_partition cmp
           (move_median_to_first cmp xs first (first + 1) mid (lst - 1))
           (first + 1) lst first)"

text \<open>
  The heap sort of \<open>bits/stl_heap.h\<close>: \<open>__push_heap\<close>, \<open>__adjust_heap\<close>, \<open>__pop_heap\<close>,
  \<open>__make_heap\<close> and \<open>__sort_heap\<close>, on the heap that starts at \<open>first\<close>; hole, child and
  parent are distances from \<open>first\<close>. Its lengths are never 0.
\<close>

function push_heap ::
  "('a \<Rightarrow> 'a \<Rightarrow> bool) \<Rightarrow> 'a list \<Rightarrow> nat \<Rightarrow> nat \<Rightarrow> nat \<Rightarrow> 'a \<Rightarrow> 'a list" where
  "push_heap cmp xs first holeIndex topIndex val =
     (let parent = (holeIndex - 1) div 2
      in if holeIndex > topIndex \<and> cmp (xs ! (first + parent)) val
         then push_heap cmp (xs[first + holeIndex := xs ! (first + parent)]) first parent
                topIndex val
         else xs[first + holeIndex := val])"
  by pat_completeness auto
termination
  by (relation "measure (\<lambda>(cmp, xs, first, holeIndex, topIndex, val). holeIndex)") auto

declare push_heap.simps [simp del]

function adjust_heap_loop ::
  "('a \<Rightarrow> 'a \<Rightarrow> bool) \<Rightarrow> 'a list \<Rightarrow> nat \<Rightarrow> nat \<Rightarrow> nat \<Rightarrow> nat \<Rightarrow> 'a list \<times> nat \<times> nat" where
  "adjust_heap_loop cmp xs first len holeIndex secondChild =
     (if secondChild < (len - 1) div 2 then
        (let child = 2 * (secondChild + 1);
             child' = (if cmp (xs ! (first + child)) (xs ! (first + (child - 1)))
                       then child - 1 else child)
         in adjust_heap_loop cmp (xs[first + holeIndex := xs ! (first + child')]) first len
              child' child')
      else (xs, holeIndex, secondChild))"
  by pat_completeness auto
termination
  by (relation "measure (\<lambda>(cmp, xs, first, len, holeIndex, secondChild). len - secondChild)")
     auto

declare adjust_heap_loop.simps [simp del]

definition adjust_heap ::
  "('a \<Rightarrow> 'a \<Rightarrow> bool) \<Rightarrow> 'a list \<Rightarrow> nat \<Rightarrow> nat \<Rightarrow> nat \<Rightarrow> 'a \<Rightarrow> 'a list" where
  "adjust_heap cmp xs first holeIndex len val =
     (let topIndex = holeIndex;
          (xs1, hole1, child1) = adjust_heap_loop cmp xs first len holeIndex holeIndex
      in if len mod 2 = 0 \<and> int child1 = (int len - 2) div 2 then
           (let child2 = 2 * (child1 + 1)
            in push_heap cmp (xs1[first + hole1 := xs1 ! (first + (child2 - 1))]) first
                 (child2 - 1) topIndex val)
         else push_heap cmp xs1 first hole1 topIndex val)"

definition pop_heap ::
  "('a \<Rightarrow> 'a \<Rightarrow> bool) \<Rightarrow> 'a list \<Rightarrow> nat \<Rightarrow> nat \<Rightarrow> nat \<Rightarrow> 'a list" where
  "pop_heap cmp xs first lst result =
     adjust_heap cmp (xs[result := xs ! first]) first 0 (lst - first) (xs ! result)"

function make_heap_loop ::
  "('a \<Rightarrow> 'a \<Rightarrow> bool) \<Rightarrow> 'a list \<Rightarrow> nat \<Rightarrow> nat \<Rightarrow> nat \<Rightarrow> 'a list" where
  "make_heap_loop cmp xs first len parent =
     (let xs' = adjust_heap cmp xs first parent len (xs ! (first + parent))
      in if parent = 0 then xs' else make_heap_loop cmp xs' first len (parent - 1))"
  by pat_completeness auto
termination
  by (relation "measure (\<lambda>(cmp, xs, first, len, parent). parent)") auto

declare make_heap_loop.simps [simp del]

definition make_heap :: "('a \<Rightarrow> 'a \<Rightarrow> bool) \<Rightarrow> 'a list \<Rightarrow> nat \<Rightarrow> nat \<Rightarrow> 'a list" where
  "make_heap cmp xs first lst =
     (if lst - first < 2 then xs
      else make_heap_loop cmp xs first (lst - first) ((lst - first - 2) div 2))"

function sort_heap :: "('a \<Rightarrow> 'a \<Rightarrow> bool) \<Rightarrow> 'a list \<Rightarrow> nat \<Rightarrow> nat \<Rightarrow> 'a list" where
  "sort_heap cmp xs first lst =
     (if lst - first > 1
      then sort_heap cmp (pop_heap cmp xs first (lst - 1) (lst - 1)) first (lst - 1)
      else xs)"
  by pat_completeness auto
termination
  by (relation "measure (\<lambda>(cmp, xs, first, lst). lst)") auto

declare sort_heap.simps [simp del]

text \<open>\<open>__heap_select(first, middle, last, comp)\<close> and \<open>__partial_sort\<close>.\<close>

function heap_select_loop ::
  "('a \<Rightarrow> 'a \<Rightarrow> bool) \<Rightarrow> 'a list \<Rightarrow> nat \<Rightarrow> nat \<Rightarrow> nat \<Rightarrow> nat \<Rightarrow> 'a list" where
  "heap_select_loop cmp xs first middle i lst =
     (if i < lst
      then heap_select_loop cmp
             (if cmp (xs ! i) (xs ! first) then pop_heap cmp xs first middle i else xs)
             first middle (i + 1) lst
      else xs)"
  by pat_completeness auto
termination
  by (relation "measure (\<lambda>(cmp, xs, first, middle, i, lst). lst - i)") auto

declare heap_select_loop.simps [simp del]

definition heap_select ::
  "('a \<Rightarrow> 'a \<Rightarrow> bool) \<Rightarrow> 'a list \<Rightarrow> nat \<Rightarrow> nat \<Rightarrow> nat \<Rightarrow> 'a list" where
  "heap_select cmp xs first middle lst =
     heap_select_loop cmp (make_heap cmp xs first middle) first middle middle lst"

definition partial_sort ::
  "('a \<Rightarrow> 'a \<Rightarrow> bool) \<Rightarrow> 'a list \<Rightarrow> nat \<Rightarrow> nat \<Rightarrow> nat \<Rightarrow> 'a list" where
  "partial_sort cmp xs first middle lst =
     sort_heap cmp (heap_select cmp xs first middle lst) first middle"

text \<open>
  \<open>__introsort_loop(first, last, depth_limit, comp)\<close>: the part from the cut on is handled
  by the recursive call, the part before it by the next round of the loop.
\<close>

function introsort_loop ::
  "('a \<Rightarrow> 'a \<Rightarrow> bool) \<Rightarrow> 'a list \<Rightarrow> nat \<Rightarrow> nat \<Rightarrow> nat \<Rightarrow> 'a list" where
  "introsort_loop cmp xs first lst depth_limit =
     (if lst - first > S_threshold then
        (if depth_limit = 0 then partial_sort cmp xs first lst lst
         else (case unguarded_partition_pivot cmp xs first lst of
                 (xs', cut') \<Rightarrow>
                   introsort_loop cmp (introsort_loop cmp xs' cut' lst (depth_limit - 1))
                     first cut' (depth_limit - 1)))
      else xs)"
  by pat_completeness auto
termination
  by (relation "measure (\<lambda>(cmp, xs, first, lst, depth_limit). depth_limit)") auto

declare introsort_loop.simps [simp del]

text \<open>\<open>std::sort(first, last, comp)\<close> on the whole vector.\<close>

definition libstdcxx_sort :: "('a \<Rightarrow> 'a \<Rightarrow> bool) \<Rightarrow> 'a list \<Rightarrow> 'a list" where
  "libstdcxx_sort cmp xs =
     (if xs \<noteq> []
      then final_insertion_sort cmp
             (introsort_loop cmp xs 0 (length xs) (lg (length xs) * 2)) 0 (length xs)
      else xs)"

subsection \<open>Instances of the parameters\<close>

text \<open>
  A number parser for the examples: leading white space, then decimal digits up to the end
  of the string give their value; any other string fails. \<open>std::stod\<close> accepts more
  (signs, fractions, exponents, a rest after the number) and agrees with this parser on the
  strings of the examples.
\<close>

fun parse_digits_from :: "nat \<Rightarrow> string \<Rightarrow> nat option" where
  "parse_digits_from n [] = Some n"
| "parse_digits_from n (c # cs) =
     (if CHR ''0'' \<le> c \<and> c \<le> CHR ''9''
      then parse_digits_from (10 * n + (of_char c - 48)) cs
      else None)"

definition parse_digits :: "string \<Rightarrow> nat option" where
  "parse_digits s =
     (let s' = dropWhile isspace s in if s' = [] then None else parse_digits_from 0 s')"

section \<open>diff: the LCS table and its backtrack\<close>

text \<open>\<open>struct DiffLine { char type; std::string text; int line1; int line2; }\<close>: the type is
  \<open>' '\<close> for a line of both files, \<open>'+'\<close> for a line of the second file only and \<open>'-'\<close>
  for a line of the first file only. The first two fields are \<open>dl_type\<close> and \<open>dl_text\<close>
  here, \<open>text\<close> being a keyword of Isabelle.\<close>

record DiffLine =
  dl_type :: char
  dl_text :: string
  line1 :: int
  line2 :: int

text \<open>\<open>std::vector<std::vector<int>> dp(n + 1, std::vector<int>(m + 1, 0))\<close>.\<close>

definition dp_init :: "nat \<Rightarrow> nat \<Rightarrow> int list list" where
  "dp_init n m = replicate (n + 1) (replicate (m + 1) 0)"

text \<open>The value the loop body stores in \<open>dp[i][j]\<close>.\<close>

definition dp_cell :: "string list \<Rightarrow> string list \<Rightarrow> int list list \<Rightarrow> nat \<Rightarrow> nat \<Rightarrow> int" where
  "dp_cell lines1 lines2 dp i j =
     (if lines1 ! (i - 1) = lines2 ! (j - 1)
      then dp ! (i - 1) ! (j - 1) + 1
      else max (dp ! (i - 1) ! j) (dp ! i ! (j - 1)))"

text \<open>The inner loop \<open>for (int j = 1; j <= m; j++)\<close> for one \<open>i\<close>, updating the table in
  place. Every index it reads or writes is inside the table.\<close>

definition dp_row :: "string list \<Rightarrow> string list \<Rightarrow> nat \<Rightarrow> int list list \<Rightarrow> int list list" where
  "dp_row lines1 lines2 i dp =
     fold (\<lambda>j dp. dp[i := (dp ! i)[j := dp_cell lines1 lines2 dp i j]])
       [1 ..< length lines2 + 1] dp"

text \<open>The outer loop \<open>for (int i = 1; i <= n; i++)\<close>.\<close>

definition lcs_dp :: "string list \<Rightarrow> string list \<Rightarrow> int list list" where
  "lcs_dp lines1 lines2 =
     fold (dp_row lines1 lines2) [1 ..< length lines1 + 1]
       (dp_init (length lines1) (length lines2))"

text \<open>The loop \<open>while (i > 0 || j > 0)\<close>; \<open>push_back\<close> appends to \<open>diffs\<close>. Every step
  lowers \<open>i + j\<close>, so the loop ends.\<close>

function backtrack ::
  "int list list \<Rightarrow> string list \<Rightarrow> string list \<Rightarrow> nat \<Rightarrow> nat \<Rightarrow> DiffLine list \<Rightarrow> DiffLine list" where
  "backtrack dp lines1 lines2 i j diffs =
     (if i > 0 \<or> j > 0 then
        (if i > 0 \<and> j > 0 \<and> lines1 ! (i - 1) = lines2 ! (j - 1) then
           backtrack dp lines1 lines2 (i - 1) (j - 1)
             (diffs @ [\<lparr>dl_type = CHR '' '', dl_text = lines1 ! (i - 1), line1 = int i, line2 = int j\<rparr>])
         else if j > 0 \<and> (i = 0 \<or> dp ! i ! (j - 1) \<ge> dp ! (i - 1) ! j) then
           backtrack dp lines1 lines2 i (j - 1)
             (diffs @ [\<lparr>dl_type = CHR ''+'', dl_text = lines2 ! (j - 1), line1 = 0, line2 = int j\<rparr>])
         else
           backtrack dp lines1 lines2 (i - 1) j
             (diffs @ [\<lparr>dl_type = CHR ''-'', dl_text = lines1 ! (i - 1), line1 = int i, line2 = 0\<rparr>]))
      else diffs)"
  by pat_completeness auto
termination
  by (relation "measure (\<lambda>(dp, lines1, lines2, i, j, diffs). i + j)") auto

text \<open>The edit script of \<open>diff_impl\<close>: the backtrack from \<open>(n, m)\<close>, then \<open>std::reverse\<close>.\<close>

definition diff_lines :: "string list \<Rightarrow> string list \<Rightarrow> DiffLine list" where
  "diff_lines lines1 lines2 =
     rev (backtrack (lcs_dp lines1 lines2) lines1 lines2 (length lines1) (length lines2) [])"

text \<open>The rendering: the two header lines of the unified format, then one line per entry;
  the lines of both files are left out of the plain format.\<close>

definition diff_render :: "string \<Rightarrow> string \<Rightarrow> bool \<Rightarrow> DiffLine list \<Rightarrow> string" where
  "diff_render file1 file2 unified diffs =
     (if unified then ''--- '' @ file1 @ [newline] @ ''+++ '' @ file2 @ [newline] else []) @
     concat (map (\<lambda>d. if dl_type d \<noteq> CHR '' '' \<or> unified
                        then [dl_type d] @ '' '' @ dl_text d @ [newline] else []) diffs)"

text \<open>\<open>diff_impl\<close>: the two files are read, the first one first; \<open>context_lines\<close> is
  accepted and not used.\<close>

definition diff_impl :: "filesystem \<Rightarrow> string \<Rightarrow> string \<Rightarrow> bool \<Rightarrow> int \<Rightarrow> error + string" where
  "diff_impl fs file1 file2 unified context_lines =
     (case read_lines fs file1 of
        Inl e \<Rightarrow> Inl e
      | Inr lines1 \<Rightarrow>
          (case read_lines fs file2 of
             Inl e \<Rightarrow> Inl e
           | Inr lines2 \<Rightarrow> Inr (diff_render file1 file2 unified (diff_lines lines1 lines2))))"

subsection \<open>Reading an edit script\<close>

text \<open>
  Applying an edit script to the lines of the first file: an entry of type \<open>' '\<close> keeps the
  next line, \<open>'-'\<close> skips it (both must carry the text of that line), \<open>'+'\<close> emits the
  entry's own text. The script fails (\<open>None\<close>) when an entry does not fit the line it
  meets, or when the script and the file do not end together.
\<close>

fun patch :: "DiffLine list \<Rightarrow> string list \<Rightarrow> string list option" where
  "patch [] [] = Some []"
| "patch [] (a # as) = None"
| "patch (d # ds) as =
     (if dl_type d = CHR ''+'' then map_option (\<lambda>bs. dl_text d # bs) (patch ds as)
      else (case as of
              [] \<Rightarrow> None
            | a # as' \<Rightarrow>
                if dl_text d \<noteq> a then None
                else if dl_type d = CHR '' '' then map_option (\<lambda>bs. a # bs) (patch ds as')
                else if dl_type d = CHR ''-'' then patch ds as'
                else None))"

subsection \<open>The length of a longest common subsequence\<close>

text \<open>The textbook recursion, the yardstick for the table and for the length of an edit
  script.\<close>

fun lcs_length :: "'a list \<Rightarrow> 'a list \<Rightarrow> nat" where
  "lcs_length [] ys = 0"
| "lcs_length (x # xs) [] = 0"
| "lcs_length (x # xs) (y # ys) =
     (if x = y then 1 + lcs_length xs ys
      else max (lcs_length xs (y # ys)) (lcs_length (x # xs) ys))"

text \<open>The number of entries of an edit script that stand for a line of both files.\<close>

definition count_equal :: "DiffLine list \<Rightarrow> nat" where
  "count_equal ops = length (filter (\<lambda>d. dl_type d = CHR '' '') ops)"

text \<open>What the table has to hold at \<open>(i, j)\<close>: the length for the first \<open>i\<close> lines of the
  one file and the first \<open>j\<close> lines of the other.\<close>

definition lcs_cell :: "string list \<Rightarrow> string list \<Rightarrow> nat \<Rightarrow> nat \<Rightarrow> int" where
  "lcs_cell A B i j = int (lcs_length (rev (take i A)) (rev (take j B)))"

text \<open>The invariant of the two loops that fill the table: its shape, its zero column
  and the cells written before the loops reach \<open>(i, j)\<close>.\<close>

definition filled_upto :: "string list \<Rightarrow> string list \<Rightarrow> int list list \<Rightarrow> nat \<Rightarrow> nat \<Rightarrow> bool" where
  "filled_upto A B dp i j =
     (length dp = length A + 1 \<and>
      (\<forall>r < length dp. length (dp ! r) = length B + 1) \<and>
      (\<forall>a \<le> length A. dp ! a ! 0 = 0) \<and>
      (\<forall>a \<le> length A. \<forall>b \<le> length B.
          a < i \<or> (a = i \<and> b < j) \<longrightarrow> dp ! a ! b = lcs_cell A B a b))"

section \<open>cmp: the first differing byte\<close>

text \<open>
  An open \<open>std::ifstream\<close>: the bytes not yet read, and whether the stream is still good.
  \<open>ifs.get(c)\<close> on a good stream with a byte left consumes it and succeeds; at the end
  of the file it sets the fail bit and fails; on a failed stream it fails at once.
\<close>

record ifstream =
  unread :: string
  good :: bool

definition stream_get :: "ifstream \<Rightarrow> char option \<times> ifstream" where
  "stream_get s =
     (if \<not> good s then (None, s)
      else (case unread s of
              [] \<Rightarrow> (None, s\<lparr>good := False\<rparr>)
            | c # cs \<Rightarrow> (Some c, s\<lparr>unread := cs\<rparr>)))"

text \<open>
  \<open>while (ifs1.get(c1) && ifs2.get(c2)) { byte_offset++; if (c1 == '\n') line_number++;
  if (c1 != c2) { identical = false; break; } }\<close>.
  The condition reads the first stream before the second and does not read the second
  when the first fails. The result is the two streams, \<open>byte_offset\<close>, \<open>line_number\<close> and
  \<open>identical\<close> after the loop.
\<close>

function cmp_loop ::
  "ifstream \<Rightarrow> ifstream \<Rightarrow> int \<Rightarrow> int \<Rightarrow> ifstream \<times> ifstream \<times> int \<times> int \<times> bool" where
  "cmp_loop ifs1 ifs2 byte_offset line_number =
     (case stream_get ifs1 of
        (None, ifs1') \<Rightarrow> (ifs1', ifs2, byte_offset, line_number, True)
      | (Some c1, ifs1') \<Rightarrow>
          (case stream_get ifs2 of
             (None, ifs2') \<Rightarrow> (ifs1', ifs2', byte_offset, line_number, True)
           | (Some c2, ifs2') \<Rightarrow>
               (let byte_offset' = byte_offset + 1;
                    line_number' = (if c1 = newline then line_number + 1 else line_number)
                in if c1 \<noteq> c2 then (ifs1', ifs2', byte_offset', line_number', False)
                   else cmp_loop ifs1' ifs2' byte_offset' line_number')))"
  by pat_completeness auto
termination
  by (relation "measure (\<lambda>(ifs1, ifs2, byte_offset, line_number). length (unread ifs1))")
     (auto simp: stream_get_def split: if_splits list.splits)

text \<open>\<open>std::to_string\<close> of an integer: its decimal digits, with a minus sign when negative.\<close>

function to_string_nat :: "nat \<Rightarrow> string" where
  "to_string_nat n =
     (if n < 10 then [char_of (48 + n)]
      else to_string_nat (n div 10) @ [char_of (48 + n mod 10)])"
  by pat_completeness auto
termination
  by (relation "measure id") auto

definition to_string :: "int \<Rightarrow> string" where
  "to_string i = (if i < 0 then CHR ''-'' # to_string_nat (nat (- i)) else to_string_nat (nat i))"

record cmp_result =
  identical :: bool
  byte_offset :: "int option"
  line_number :: "int option"
  message :: "string option"

text \<open>
  \<open>cmp_impl\<close> on the bytes of the two opened files: the loop, then
  \<open>if (identical && (ifs1.get(c1) || ifs2.get(c2))) { identical = false; byte_offset++; }\<close>,
  then the dictionary, whose last three keys are set only when the files differ and
  \<open>silent\<close> is false.
\<close>

definition cmp_bytes :: "string \<Rightarrow> string \<Rightarrow> bool \<Rightarrow> string \<Rightarrow> string \<Rightarrow> cmp_result" where
  "cmp_bytes file1 file2 silent bytes1 bytes2 =
     (let (ifs1, ifs2, byte_offset, line_number, identical) =
            cmp_loop \<lparr>unread = bytes1, good = True\<rparr> \<lparr>unread = bytes2, good = True\<rparr> 0 1;
          more = (identical \<and>
                  (case stream_get ifs1 of
                     (Some c1, _) \<Rightarrow> True
                   | (None, _) \<Rightarrow> (case stream_get ifs2 of (Some c2, _) \<Rightarrow> True | (None, _) \<Rightarrow> False)));
          identical' = (if more then False else identical);
          byte_offset' = (if more then byte_offset + 1 else byte_offset)
      in if \<not> identical' \<and> \<not> silent
         then \<lparr>identical = identical', byte_offset = Some byte_offset',
               line_number = Some line_number,
               message = Some (file1 @ '' '' @ file2 @ '' differ: byte '' @ to_string byte_offset' @
                               '', line '' @ to_string line_number)\<rparr>
         else \<lparr>identical = identical', byte_offset = None, line_number = None, message = None\<rparr>)"

definition cmp_impl :: "filesystem \<Rightarrow> string \<Rightarrow> string \<Rightarrow> bool \<Rightarrow> error + cmp_result" where
  "cmp_impl fs file1 file2 silent =
     (case fs_open fs file1 of
        None \<Rightarrow> Inl (ValueError (''cmp: '' @ file1 @ '': No such file or directory''))
      | Some bytes1 \<Rightarrow>
          (case fs_open fs file2 of
             None \<Rightarrow> Inl (ValueError (''cmp: '' @ file2 @ '': No such file or directory''))
           | Some bytes2 \<Rightarrow> Inr (cmp_bytes file1 file2 silent bytes1 bytes2)))"

section \<open>comm: three-way partition of two line sets\<close>

text \<open>
  \<open>std::set<std::string>\<close> is modelled by its iteration sequence, a strictly ascending
  list. \<open>set_insert\<close> is \<open>std::set::insert\<close> (no effect when the element is present),
  \<open>set_of_range\<close> the range constructor, \<open>set_count\<close> is \<open>std::set::count\<close>.
\<close>

fun set_insert :: "'a::linorder \<Rightarrow> 'a list \<Rightarrow> 'a list" where
  "set_insert x [] = [x]"
| "set_insert x (y # ys) =
     (if x < y then x # y # ys
      else if x = y then y # ys
      else y # set_insert x ys)"

definition set_of_range :: "'a::linorder list \<Rightarrow> 'a list" where
  "set_of_range xs = foldl (\<lambda>s x. set_insert x s) [] xs"

definition set_count :: "'a list \<Rightarrow> 'a \<Rightarrow> nat" where
  "set_count s x = (if x \<in> set s then 1 else 0)"

record comm_result =
  only_in_first :: "string list"
  only_in_second :: "string list"
  in_both :: "string list"

text \<open>The first loop of \<open>comm_impl\<close>, over \<open>set1\<close>; the state is the pair of Python lists
  \<open>(in_both, only_in_1)\<close>, and \<open>append\<close> adds at the end.\<close>

fun comm_loop1 :: "string list \<Rightarrow> string list \<Rightarrow> string list \<times> string list
    \<Rightarrow> string list \<times> string list" where
  "comm_loop1 set2 [] acc = acc"
| "comm_loop1 set2 (line # rest) (both, only1) =
     (if set_count set2 line \<noteq> 0
      then comm_loop1 set2 rest (both @ [line], only1)
      else comm_loop1 set2 rest (both, only1 @ [line]))"

text \<open>The second loop, over \<open>set2\<close>.\<close>

fun comm_loop2 :: "string list \<Rightarrow> string list \<Rightarrow> string list \<Rightarrow> string list" where
  "comm_loop2 set1 [] only2 = only2"
| "comm_loop2 set1 (line # rest) only2 =
     (if set_count set1 line = 0
      then comm_loop2 set1 rest (only2 @ [line])
      else comm_loop2 set1 rest only2)"

text \<open>\<open>comm_impl\<close> once both files are read into \<open>lines1\<close> and \<open>lines2\<close>.\<close>

definition comm_lines :: "string list \<Rightarrow> string list \<Rightarrow> comm_result" where
  "comm_lines lines1 lines2 =
     (let set1 = set_of_range lines1;
          set2 = set_of_range lines2;
          (both, only1) = comm_loop1 set2 set1 ([], []);
          only2 = comm_loop2 set1 set2 []
      in \<lparr> only_in_first = only1, only_in_second = only2, in_both = both \<rparr>)"

definition comm_impl :: "filesystem \<Rightarrow> string \<Rightarrow> string \<Rightarrow> error + comm_result" where
  "comm_impl fs file1 file2 =
     (case read_lines fs file1 of
        Inl e \<Rightarrow> Inl e
      | Inr lines1 \<Rightarrow>
          (case read_lines fs file2 of
             Inl e \<Rightarrow> Inl e
           | Inr lines2 \<Rightarrow> Inr (comm_lines lines1 lines2)))"

section \<open>cut: the selected fields of every line\<close>

text \<open>
  The fields string (\<open>field_spec\<close> below, \<open>fields\<close> in the code) is split at commas; a
  part with a dash is a range. \<open>std::stoi\<close> is a
  parameter: \<open>None\<close> when it throws. \<open>field_set\<close> is a \<open>std::set<int>\<close>, modelled by its
  ascending iteration sequence.
\<close>

fun parse_fields :: "(string \<Rightarrow> int option) \<Rightarrow> string list \<Rightarrow> int list \<Rightarrow> error + int list" where
  "parse_fields stoi [] field_set = Inr field_set"
| "parse_fields stoi (part # parts) field_set =
     (case find_char (CHR ''-'') part of
        Some dash \<Rightarrow>
          (case stoi (take dash part) of
             None \<Rightarrow> Inl (StdException ''stoi'')
           | Some start \<Rightarrow>
               (case stoi (drop (dash + 1) part) of
                  None \<Rightarrow> Inl (StdException ''stoi'')
                | Some end \<Rightarrow>
                    parse_fields stoi parts (fold set_insert [start .. end] field_set)))
      | None \<Rightarrow>
          (case stoi part of
             None \<Rightarrow> Inl (StdException ''stoi'')
           | Some f \<Rightarrow> parse_fields stoi parts (set_insert f field_set)))"

text \<open>
  The loop \<open>for (int f : field_set)\<close> for one line: \<open>tokens\<close> are the fields of the line,
  \<open>first\<close> is the flag of the code, \<open>oss\<close> the output so far.
\<close>

fun cut_row :: "char \<Rightarrow> string list \<Rightarrow> int list \<Rightarrow> bool \<Rightarrow> string \<Rightarrow> string" where
  "cut_row sep tokens [] first oss = oss"
| "cut_row sep tokens (f # fs) first oss =
     (if f \<ge> 1 \<and> f \<le> int (length tokens)
      then cut_row sep tokens fs False
             ((if \<not> first then oss @ [sep] else oss) @ tokens ! nat (f - 1))
      else cut_row sep tokens fs first oss)"

text \<open>The loop over the lines: each line is split by \<open>std::getline\<close> at \<open>sep\<close>.\<close>

fun cut_loop :: "char \<Rightarrow> int list \<Rightarrow> string list \<Rightarrow> string \<Rightarrow> string" where
  "cut_loop sep field_set [] oss = oss"
| "cut_loop sep field_set (line # lines) oss =
     cut_loop sep field_set lines
       (cut_row sep (getline_all sep line) field_set True oss @ [newline])"

definition cut_lines :: "char \<Rightarrow> int list \<Rightarrow> string list \<Rightarrow> string" where
  "cut_lines sep field_set lines = cut_loop sep field_set lines []"

definition cut_impl ::
  "(string \<Rightarrow> int option) \<Rightarrow> filesystem \<Rightarrow> string \<Rightarrow> string \<Rightarrow> string \<Rightarrow> error + string" where
  "cut_impl stoi fs path delimiter field_spec =
     (case read_lines fs path of
        Inl e \<Rightarrow> Inl e
      | Inr lines \<Rightarrow>
          (let sep = (case delimiter of [] \<Rightarrow> CHR 0x09 | c # _ \<Rightarrow> c) in
           case parse_fields stoi (getline_all (CHR '','') field_spec) [] of
             Inl e \<Rightarrow> Inl e
           | Inr field_set \<Rightarrow> Inr (cut_lines sep field_set lines)))"

section \<open>join: an inner join of two files on a key field\<close>

text \<open>The lambda \<open>get_field\<close> of \<open>join_impl\<close>: white-space fields when the separator is a
  space, fields between separators otherwise.\<close>

definition get_field :: "char \<Rightarrow> string \<Rightarrow> int \<Rightarrow> string" where
  "get_field sep line field =
     (if sep = CHR '' '' then ws_field (nat field) [] line
      else delim_field (nat (field - 1)) sep line)"

text \<open>
  \<open>std::multimap<std::string, std::string>\<close> is modelled by its iteration sequence: the
  entries in ascending key order. \<open>emplace\<close> puts the new entry after the entries whose key
  is not greater; \<open>equal_range\<close> is the run of entries between the first key that is not
  smaller and the first key that is greater.
\<close>

fun mm_emplace :: "'k::linorder \<Rightarrow> 'v \<Rightarrow> ('k \<times> 'v) list \<Rightarrow> ('k \<times> 'v) list" where
  "mm_emplace k v [] = [(k, v)]"
| "mm_emplace k v ((k', v') # m) =
     (if k < k' then (k, v) # (k', v') # m else (k', v') # mm_emplace k v m)"

definition equal_range :: "('k::linorder \<times> 'v) list \<Rightarrow> 'k \<Rightarrow> ('k \<times> 'v) list" where
  "equal_range m k = takeWhile (\<lambda>e. \<not> k < fst e) (dropWhile (\<lambda>e. fst e < k) m)"

text \<open>The loop that builds the index on the second file.\<close>

definition build_index :: "char \<Rightarrow> int \<Rightarrow> string list \<Rightarrow> (string \<times> string) list" where
  "build_index sep field2 lines2 =
     foldl (\<lambda>index2 line. mm_emplace (get_field sep line field2) line index2) [] lines2"

text \<open>
  The output loop. The stream \<open>oss\<close> is kept as the list of its writes, one per execution
  of \<open>oss << line << sep << it->second << "\n"\<close>; \<open>oss.str()\<close> is their concatenation.
\<close>

fun join_loop :: "char \<Rightarrow> int \<Rightarrow> (string \<times> string) list \<Rightarrow> string list \<Rightarrow> string list
    \<Rightarrow> string list" where
  "join_loop sep field1 index2 [] oss = oss"
| "join_loop sep field1 index2 (line # lines1) oss =
     join_loop sep field1 index2 lines1
       (foldl (\<lambda>oss it. oss @ [line @ [sep] @ snd it @ [newline]]) oss
          (equal_range index2 (get_field sep line field1)))"

definition join_rows :: "char \<Rightarrow> int \<Rightarrow> int \<Rightarrow> string list \<Rightarrow> string list \<Rightarrow> string list" where
  "join_rows sep field1 field2 lines1 lines2 =
     join_loop sep field1 (build_index sep field2 lines2) lines1 []"

definition join_lines :: "char \<Rightarrow> int \<Rightarrow> int \<Rightarrow> string list \<Rightarrow> string list \<Rightarrow> string" where
  "join_lines sep field1 field2 lines1 lines2 = concat (join_rows sep field1 field2 lines1 lines2)"

definition join_impl ::
  "filesystem \<Rightarrow> string \<Rightarrow> string \<Rightarrow> int \<Rightarrow> int \<Rightarrow> string \<Rightarrow> error + string" where
  "join_impl fs file1 file2 field1 field2 separator =
     (case read_lines fs file1 of
        Inl e \<Rightarrow> Inl e
      | Inr lines1 \<Rightarrow>
          (case read_lines fs file2 of
             Inl e \<Rightarrow> Inl e
           | Inr lines2 \<Rightarrow>
               (let sep = (case separator of [] \<Rightarrow> CHR '' '' | c # _ \<Rightarrow> c)
                in Inr (join_lines sep field1 field2 lines1 lines2))))"

chapter \<open>Properties\<close>

section \<open>grep\<close>

lemma collect_files_no_read: "ReadFile f \<notin> set (fst (collect_files fs recursive path))"
  by (simp add: collect_files_def)

text \<open>
  Claim C6 says that a call with an invalid pattern fails with the invalid-pattern error
  before any access to the file system. \<open>grep_impl\<close> runs \<open>collect_files\<close> before it
  builds the \<open>std::regex\<close>: with the pattern \<open>(\<close>, invalid with and without
  \<open>whole_word\<close>, and a path that does not exist, the file system has been asked whether
  the path exists and the error is the one of the path.
\<close>

theorem grep_invalid_pattern_counterexample:
  "literal_compile ''('' False = Inl ''regex_error'' \<and>
   grep_impl literal_compile literal_search one_file_fs ''('' ''missing.txt''
     False False True False False False False =
   ([Exists ''missing.txt''], Inl (ValueError ''grep: missing.txt: No such file or directory''))"
  by code_simp

text \<open>
  The expression that \<open>grep_impl\<close> gives to \<open>std::regex\<close> is the pattern, and under
  \<open>whole_word\<close> the pattern between two word-boundary assertions \<open>\b\<close>. It is this
  expression that is accepted or rejected: the pattern made of \<open>e\<close> and a backslash,
  rejected by itself for its last backslash, is under \<open>whole_word\<close> the expression
  \<open>\be\\b\<close>, which is accepted, and the file is read.
\<close>

lemma grep_whole_word_compiles_wrapped_pattern:
  "literal_compile [CHR ''e'', CHR 0x5C] False = Inl ''regex_error'' \<and>
   grep_impl literal_compile literal_search one_file_fs [CHR ''e'', CHR 0x5C] ''log.txt''
     False False True False False False True =
   ([Exists ''log.txt'', IsRegularFile ''log.txt'', ReadFile ''log.txt''], Inr (Results []))"
  by code_simp

text \<open>
  Claim C6, amended. For every call in which the expression given to \<open>std::regex\<close> (the
  pattern, and under \<open>whole_word\<close> the pattern between two \<open>\b\<close>) is rejected,
  \<open>grep_impl\<close> first resolves the path (existence and type queries, and the traversal of a
  directory under \<open>recursive\<close>); it fails with the error of the path when the path is
  missing or is a directory without \<open>recursive\<close>, and with the descriptive invalid-pattern
  error otherwise. In either case no file has been opened or read.
\<close>

theorem grep_invalid_pattern_rejected_before_reading:
  assumes "regex_compile (if whole_word then word_boundary @ pattern @ word_boundary else pattern)
             ignore_case = Inl what"
  shows "grep_impl regex_compile regex_search fs pattern path ignore_case recursive line_numbers
           count_only invert files_only whole_word =
         (fst (collect_files fs recursive path),
          (case snd (collect_files fs recursive path) of
             Inl e \<Rightarrow> Inl e
           | Inr files \<Rightarrow> Inl (ValueError (''grep: invalid regex pattern: '' @ what)))) \<and>
         (\<forall>f. ReadFile f \<notin> set (fst (grep_impl regex_compile regex_search fs pattern path
            ignore_case recursive line_numbers count_only invert files_only whole_word)))"
proof -
  obtain trace r where c: "collect_files fs recursive path = (trace, r)"
    by (cases "collect_files fs recursive path")
  have g: "grep_impl regex_compile regex_search fs pattern path ignore_case recursive line_numbers
           count_only invert files_only whole_word =
         (trace, (case r of Inl e \<Rightarrow> Inl e
                  | Inr files \<Rightarrow> Inl (ValueError (''grep: invalid regex pattern: '' @ what))))"
    using assms by (cases r) (simp_all add: grep_impl_def c Let_def)
  have "ReadFile f \<notin> set trace" for f
    using collect_files_no_read [of f fs recursive path] by (simp add: c)
  with g show ?thesis by (simp add: c)
qed

text \<open>The pattern \<open>(\<close> on the file \<open>log.txt\<close>, without and with \<open>whole_word\<close>: the
  expressions \<open>(\<close> and \<open>\b(\b\<close> are rejected, after the two queries on the path.\<close>

theorem grep_invalid_pattern_witness:
  "literal_compile ''('' False = Inl ''regex_error'' \<and>
   grep_impl literal_compile literal_search one_file_fs ''('' ''log.txt''
     False False True False False False False =
   ([Exists ''log.txt'', IsRegularFile ''log.txt''],
    Inl (ValueError ''grep: invalid regex pattern: regex_error'')) \<and>
   literal_compile (word_boundary @ ''('' @ word_boundary) False = Inl ''regex_error'' \<and>
   grep_impl literal_compile literal_search one_file_fs ''('' ''log.txt''
     False False True False False False True =
   ([Exists ''log.txt'', IsRegularFile ''log.txt''],
    Inl (ValueError ''grep: invalid regex pattern: regex_error''))"
proof -
  have h1: "literal_compile (if False then word_boundary @ ''('' @ word_boundary else ''('')
              False = Inl ''regex_error''"
    by code_simp
  have h2: "literal_compile (if True then word_boundary @ ''('' @ word_boundary else ''('')
              False = Inl ''regex_error''"
    by code_simp
  have c: "collect_files one_file_fs False ''log.txt'' =
             ([Exists ''log.txt'', IsRegularFile ''log.txt''], Inr [''log.txt''])"
    by code_simp
  from grep_invalid_pattern_rejected_before_reading [where regex_compile = literal_compile
      and whole_word = False and pattern = "''(''" and ignore_case = False
      and what = "''regex_error''" and regex_search = literal_search and fs = one_file_fs
      and path = "''log.txt''" and recursive = False and line_numbers = True
      and count_only = False and invert = False and files_only = False, OF h1]
  have "grep_impl literal_compile literal_search one_file_fs ''('' ''log.txt''
     False False True False False False False =
     (fst (collect_files one_file_fs False ''log.txt''),
      (case snd (collect_files one_file_fs False ''log.txt'') of
         Inl e \<Rightarrow> Inl e
       | Inr files \<Rightarrow> Inl (ValueError (''grep: invalid regex pattern: '' @ ''regex_error''))))"
    by (rule conjunct1)
  then have r1: "grep_impl literal_compile literal_search one_file_fs ''('' ''log.txt''
     False False True False False False False =
   ([Exists ''log.txt'', IsRegularFile ''log.txt''],
    Inl (ValueError ''grep: invalid regex pattern: regex_error''))"
    by (simp add: c)
  from grep_invalid_pattern_rejected_before_reading [where regex_compile = literal_compile
      and whole_word = True and pattern = "''(''" and ignore_case = False
      and what = "''regex_error''" and regex_search = literal_search and fs = one_file_fs
      and path = "''log.txt''" and recursive = False and line_numbers = True
      and count_only = False and invert = False and files_only = False, OF h2]
  have "grep_impl literal_compile literal_search one_file_fs ''('' ''log.txt''
     False False True False False False True =
     (fst (collect_files one_file_fs False ''log.txt''),
      (case snd (collect_files one_file_fs False ''log.txt'') of
         Inl e \<Rightarrow> Inl e
       | Inr files \<Rightarrow> Inl (ValueError (''grep: invalid regex pattern: '' @ ''regex_error''))))"
    by (rule conjunct1)
  then have r2: "grep_impl literal_compile literal_search one_file_fs ''('' ''log.txt''
     False False True False False False True =
   ([Exists ''log.txt'', IsRegularFile ''log.txt''],
    Inl (ValueError ''grep: invalid regex pattern: regex_error''))"
    by (simp add: c)
  from h1 have g1: "literal_compile ''('' False = Inl ''regex_error''" by simp
  from h2 have g2: "literal_compile (word_boundary @ ''('' @ word_boundary) False =
      Inl ''regex_error''" by simp
  show ?thesis
    by (rule conjI [OF g1 conjI [OF r1 conjI [OF g2 r2]]])
qed
section \<open>sort\<close>

lemma swo_asym:
  "strict_weak_order_on S cmp \<Longrightarrow> a \<in> S \<Longrightarrow> b \<in> S \<Longrightarrow> cmp a b \<Longrightarrow> \<not> cmp b a"
  unfolding strict_weak_order_on_def by blast

lemma swo_neg_trans:
  assumes swo: "strict_weak_order_on S cmp" and S: "a \<in> S" "b \<in> S" "c \<in> S"
    and ab: "\<not> cmp b a" and bc: "\<not> cmp c b"
  shows "\<not> cmp c a"
proof
  assume ca: "cmp c a"
  have irr: "\<not> cmp a a" "\<not> cmp b b" "\<not> cmp c c"
    using swo S unfolding strict_weak_order_on_def by blast+
  have tr: "\<And>x y z. x \<in> S \<Longrightarrow> y \<in> S \<Longrightarrow> z \<in> S \<Longrightarrow> cmp x y \<Longrightarrow> cmp y z \<Longrightarrow> cmp x z"
    using swo unfolding strict_weak_order_on_def by blast
  have eq: "\<And>x y z. x \<in> S \<Longrightarrow> y \<in> S \<Longrightarrow> z \<in> S \<Longrightarrow>
      equiv_under cmp x y \<Longrightarrow> equiv_under cmp y z \<Longrightarrow> equiv_under cmp x z"
    using swo unfolding strict_weak_order_on_def by blast
  show False
  proof (cases "cmp a b")
    case True
    with ca tr S have "cmp c b" by blast
    with bc show False by simp
  next
    case nab: False
    then have e1: "equiv_under cmp a b" using ab by (simp add: equiv_under_def)
    show False
    proof (cases "cmp b c")
      case True
      with ca tr S have "cmp b a" by blast
      with ab show False by simp
    next
      case False
      then have "equiv_under cmp b c" using bc by (simp add: equiv_under_def)
      with e1 eq S have "equiv_under cmp a c" by blast
      with ca show False by (simp add: equiv_under_def)
    qed
  qed
qed

lemma swo_equiv_trans:
  "strict_weak_order_on S cmp \<Longrightarrow> a \<in> S \<Longrightarrow> b \<in> S \<Longrightarrow> c \<in> S \<Longrightarrow>
   equiv_under cmp a b \<Longrightarrow> equiv_under cmp b c \<Longrightarrow> equiv_under cmp a c"
  unfolding strict_weak_order_on_def by blast

lemma equiv_under_sym: "equiv_under cmp a b = equiv_under cmp b a"
  by (auto simp: equiv_under_def)

lemma swo_key_less:
  "strict_weak_order_on S (\<lambda>a b. f a < (f b :: 'k::linorder))"
  unfolding strict_weak_order_on_def equiv_under_def by auto

lemma sort_cmp_swo:
  "strict_weak_order_on S (sort_cmp stod dless False ignore_case key separator)"
proof (cases ignore_case)
  case True
  have "sort_cmp stod dless False True key separator =
        (\<lambda>a b. map tolower (get_key key separator a) < map tolower (get_key key separator b))"
    by (intro ext) (simp add: sort_cmp_def)
  with True show ?thesis by (simp add: swo_key_less)
next
  case False
  have "sort_cmp stod dless False False key separator =
        (\<lambda>a b. get_key key separator a < get_key key separator b)"
    by (intro ext) (simp add: sort_cmp_def)
  with False show ?thesis by (simp add: swo_key_less)
qed

subsection \<open>The insertion sort of the library is stable\<close>

text \<open>An element that goes into a sorted list in front of the elements it is less than,
  and behind one it is not less than, leaves the list sorted and passes no element
  equivalent to it.\<close>

lemma insert_keeps_sorted:
  assumes swo: "strict_weak_order_on S cmp" and S: "set L \<subseteq> S" "set R \<subseteq> S" "v \<in> S"
    and sorted: "sorted_wrt (\<lambda>a b. \<not> cmp b a) (L @ R)"
    and R: "\<forall>r \<in> set R. cmp v r" and L: "L \<noteq> [] \<longrightarrow> \<not> cmp v (last L)"
  shows "sorted_wrt (\<lambda>a b. \<not> cmp b a) (L @ [v] @ R)"
proof -
  have lv: "\<not> cmp v l" if l: "l \<in> set L" for l
  proof -
    from l have ne: "L \<noteq> []" by auto
    then have Ll: "L = butlast L @ [last L]" by simp
    have last: "\<not> cmp v (last L)" using L ne by simp
    show ?thesis
    proof (cases "l = last L")
      case True
      with last show ?thesis by simp
    next
      case False
      with l Ll have "l \<in> set (butlast L)"
        by (metis Un_iff empty_iff empty_set set_ConsD set_append)
      moreover have "sorted_wrt (\<lambda>a b. \<not> cmp b a) (butlast L @ [last L])"
        using sorted Ll by (simp add: sorted_wrt_append)
      ultimately have "\<not> cmp (last L) l"
        by (simp add: sorted_wrt_append)
      moreover have "last L \<in> S" using ne S(1) by auto
      ultimately show ?thesis
        using swo_neg_trans [OF swo, of l "last L" v] l S last by auto
    qed
  qed
  have rv: "\<not> cmp r v" if "r \<in> set R" for r
    using swo_asym [OF swo, of v r] that R S by auto
  show ?thesis
    using sorted lv rv by (auto simp: sorted_wrt_append)
qed

lemma insert_keeps_ties:
  assumes swo: "strict_weak_order_on S cmp" and S: "set R \<subseteq> S" "v \<in> S" "a \<in> S"
    and R: "\<forall>r \<in> set R. cmp v r"
  shows "filter (equiv_under cmp a) (L @ [v] @ R) = filter (equiv_under cmp a) (L @ R @ [v])"
proof (cases "equiv_under cmp a v")
  case True
  have "\<not> equiv_under cmp a r" if r: "r \<in> set R" for r
  proof
    assume "equiv_under cmp a r"
    moreover have "equiv_under cmp v a" using True by (simp add: equiv_under_sym)
    ultimately have "equiv_under cmp v r"
      using swo_equiv_trans [OF swo, of v a r] S r by auto
    with R r show False by (simp add: equiv_under_def)
  qed
  then have "filter (equiv_under cmp a) R = []"
    by (simp add: filter_empty_conv)
  then show ?thesis by simp
next
  case False
  then show ?thesis by simp
qed

text \<open>\<open>__unguarded_linear_insert\<close> puts the element at \<open>lst\<close> into the elements before it:
  behind the last one it is not less than.\<close>

lemma linear_insert_loop_shape:
  "lst < length xs \<Longrightarrow>
   \<exists>L R. take lst xs = L @ R \<and>
         linear_insert_loop cmp val xs lst = L @ [val] @ R @ drop (Suc lst) xs \<and>
         (\<forall>r \<in> set R. cmp val r) \<and> (L \<noteq> [] \<longrightarrow> \<not> cmp val (last L))"
proof (induction lst arbitrary: xs)
  case 0
  have "linear_insert_loop cmp val xs 0 = xs[0 := val]"
    by (subst linear_insert_loop.simps) simp
  also have "\<dots> = [] @ [val] @ [] @ drop (Suc 0) xs"
    using 0 by (cases xs) simp_all
  finally show ?case by auto
next
  case (Suc n)
  show ?case
  proof (cases "cmp val (xs ! n)")
    case True
    let ?xs' = "xs[Suc n := xs ! n]"
    have loop: "linear_insert_loop cmp val xs (Suc n) = linear_insert_loop cmp val ?xs' n"
      using True by (subst linear_insert_loop.simps) simp
    have "n < length ?xs'" using Suc.prems by simp
    from Suc.IH [OF this] obtain L R where
      t: "take n ?xs' = L @ R" and
      r: "linear_insert_loop cmp val ?xs' n = L @ [val] @ R @ drop (Suc n) ?xs'" and
      R: "\<forall>r \<in> set R. cmp val r" and L: "L \<noteq> [] \<longrightarrow> \<not> cmp val (last L)"
      by blast
    have d: "drop (Suc n) ?xs' = xs ! n # drop (Suc (Suc n)) xs"
      using Suc.prems by (simp add: upd_conv_take_nth_drop)
    have t': "take (Suc n) xs = L @ (R @ [xs ! n])"
      using t Suc.prems by (simp add: take_Suc_conv_app_nth)
    have "linear_insert_loop cmp val xs (Suc n) =
          L @ [val] @ (R @ [xs ! n]) @ drop (Suc (Suc n)) xs"
      using loop r d by simp
    moreover have "\<forall>r \<in> set (R @ [xs ! n]). cmp val r"
      using R True by simp
    ultimately show ?thesis
      using t' L by blast
  next
    case False
    have "linear_insert_loop cmp val xs (Suc n) = xs[Suc n := val]"
      using False by (subst linear_insert_loop.simps) simp
    also have "\<dots> = take (Suc n) xs @ [val] @ [] @ drop (Suc (Suc n)) xs"
      using Suc.prems by (simp add: upd_conv_take_nth_drop)
    finally have r: "linear_insert_loop cmp val xs (Suc n) =
        take (Suc n) xs @ [val] @ [] @ drop (Suc (Suc n)) xs" .
    have "last (take (Suc n) xs) = xs ! n"
      using Suc.prems by (simp add: take_Suc_conv_app_nth)
    with False have "take (Suc n) xs \<noteq> [] \<longrightarrow> \<not> cmp val (last (take (Suc n) xs))"
      by simp
    with r show ?thesis
      by (intro exI [of _ "take (Suc n) xs"] exI [of _ "[]"]) simp
  qed
qed

text \<open>One round of \<open>__insertion_sort\<close> on a vector whose first \<open>i\<close> elements are sorted.\<close>

lemma insertion_sort_step_shape:
  assumes swo: "strict_weak_order_on S cmp" and S: "set xs \<subseteq> S"
    and i: "0 < i" "i < length xs"
    and sorted: "sorted_wrt (\<lambda>a b. \<not> cmp b a) (take i xs)"
  shows "\<exists>L R. take i xs = L @ R \<and>
     (if cmp (xs ! i) (xs ! 0)
      then take 0 xs @ [xs ! i] @ take (i - 0) (drop 0 xs) @ drop (i + 1) xs
      else unguarded_linear_insert cmp xs i) = L @ [xs ! i] @ R @ drop (Suc i) xs \<and>
     (\<forall>r \<in> set R. cmp (xs ! i) r) \<and> (L \<noteq> [] \<longrightarrow> \<not> cmp (xs ! i) (last L))"
proof (cases "cmp (xs ! i) (xs ! 0)")
  case True
  have "cmp (xs ! i) r" if r: "r \<in> set (take i xs)" for r
  proof (rule ccontr)
    assume n: "\<not> cmp (xs ! i) r"
    from r obtain k where k: "k < i" "r = xs ! k"
      using i by (auto simp: in_set_conv_nth)
    have "\<not> cmp r (xs ! 0)"
    proof (cases "k = 0")
      case True
      with k n \<open>cmp (xs ! i) (xs ! 0)\<close> show ?thesis by simp
    next
      case False
      then have "\<not> cmp (take i xs ! k) (take i xs ! 0)"
        using sorted_wrt_nth_less [OF sorted, of 0 k] k i by simp
      then show ?thesis using k i by simp
    qed
    moreover have "xs ! 0 \<in> set xs" "r \<in> set xs" "xs ! i \<in> set xs"
      using i k by (auto intro!: nth_mem)
    then have "xs ! 0 \<in> S" "r \<in> S" "xs ! i \<in> S"
      using S by blast+
    ultimately have "\<not> cmp (xs ! i) (xs ! 0)"
      using swo_neg_trans [OF swo, of "xs ! 0" r "xs ! i"] n by simp
    with True show False by simp
  qed
  with True show ?thesis
    by (intro exI [of _ "[]"] exI [of _ "take i xs"]) simp
next
  case False
  from linear_insert_loop_shape [OF i(2), of cmp "xs ! i"] False show ?thesis
    by (simp add: unguarded_linear_insert_def)
qed

text \<open>The loop of \<open>__insertion_sort\<close> from round \<open>i\<close> on, for a vector \<open>xs\<close> that the rounds
  before have made of \<open>xs0\<close>: the result is sorted, holds the elements of \<open>xs0\<close>, and
  holds each class of equivalent elements in the order it has in \<open>xs0\<close>.\<close>

lemma insertion_sort_loop_stable:
  assumes swo: "strict_weak_order_on (set xs0) cmp"
  shows "0 < i \<Longrightarrow> i \<le> length xs0 \<Longrightarrow> length xs = length xs0 \<Longrightarrow> drop i xs = drop i xs0 \<Longrightarrow>
     mset (take i xs) = mset (take i xs0) \<Longrightarrow>
     sorted_wrt (\<lambda>a b. \<not> cmp b a) (take i xs) \<Longrightarrow>
     (\<forall>a \<in> set xs0. filter (equiv_under cmp a) (take i xs) =
                     filter (equiv_under cmp a) (take i xs0)) \<Longrightarrow>
     mset (insertion_sort_loop cmp xs 0 i (length xs0)) = mset xs0 \<and>
     sorted_wrt (\<lambda>a b. \<not> cmp b a) (insertion_sort_loop cmp xs 0 i (length xs0)) \<and>
     (\<forall>a \<in> set xs0. filter (equiv_under cmp a) (insertion_sort_loop cmp xs 0 i (length xs0)) =
                     filter (equiv_under cmp a) xs0)"
proof (induction k \<equiv> "length xs0 - i" arbitrary: i xs)
  case 0
  then have "i = length xs0" by simp
  moreover have "insertion_sort_loop cmp xs 0 (length xs0) (length xs0) = xs"
    by (subst insertion_sort_loop.simps) simp
  ultimately show ?case
    using "0.prems" by simp
next
  case (Suc k)
  then have i: "i < length xs0" "i < length xs" by simp_all
  let ?v = "xs ! i"
  let ?xs' = "if cmp ?v (xs ! 0)
      then take 0 xs @ [?v] @ take (i - 0) (drop 0 xs) @ drop (i + 1) xs
      else unguarded_linear_insert cmp xs i"
  have v: "?v = xs0 ! i"
    using Suc.prems(4) i by (metis nth_via_drop Cons_nth_drop_Suc)
  have mset_xs: "mset xs = mset xs0"
    using Suc.prems(4,5) by (metis append_take_drop_id mset_append)
  then have set_xs: "set xs = set xs0"
    by (rule mset_eq_setD)
  from insertion_sort_step_shape [OF swo _ Suc.prems(1) i(2) Suc.prems(6)] set_xs
  obtain L R where
    t: "take i xs = L @ R" and n: "?xs' = L @ [?v] @ R @ drop (Suc i) xs" and
    R: "\<forall>r \<in> set R. cmp ?v r" and L: "L \<noteq> [] \<longrightarrow> \<not> cmp ?v (last L)"
    by auto
  have len: "length (L @ R) = i"
    using t i by (metis length_take min.absorb2 less_imp_le)
  have "set L \<union> set R = set (take i xs)"
    using arg_cong [OF t, of set] by simp
  then have LR: "set L \<union> set R \<subseteq> set xs0"
    using set_take_subset [of i xs] set_xs by simp
  have vS: "?v \<in> set xs0"
    using nth_mem [OF i(2)] set_xs by simp
  have sub: "set L \<subseteq> set xs0" "set R \<subseteq> set xs0" "?v \<in> set xs0"
    using LR vS by simp_all
  have step: "insertion_sort_loop cmp xs 0 i (length xs0) =
              insertion_sort_loop cmp ?xs' 0 (Suc i) (length xs0)"
    using i by (subst insertion_sort_loop.simps) simp
  have n': "?xs' = (L @ [?v] @ R) @ drop (Suc i) xs"
    using n by simp
  have len': "length (L @ [?v] @ R) = Suc i"
    using len by simp
  have tkdr: "take (length ys) (ys @ zs) = ys" "drop (length ys) (ys @ zs) = zs"
    for ys zs :: "'a list"
    by simp_all
  have tk: "take (Suc i) ?xs' = L @ [?v] @ R"
    by (subst n') (simp only: len' [symmetric] tkdr)
  have dr: "drop (Suc i) ?xs' = drop (Suc i) xs0"
  proof -
    have "drop (Suc i) ?xs' = drop (Suc i) xs"
      by (subst n') (simp only: len' [symmetric] tkdr)
    also have "\<dots> = drop (Suc i) xs0"
      using Suc.prems(4) by (metis drop_drop plus_1_eq_Suc)
    finally show ?thesis .
  qed
  have ln: "length ?xs' = length xs0"
  proof -
    have "length ?xs' = Suc i + length (drop (Suc i) xs)"
      using len by (subst n') simp
    then show ?thesis using i Suc.prems(3) by simp
  qed
  have ms: "mset (take (Suc i) ?xs') = mset (take (Suc i) xs0)"
  proof -
    have "mset (L @ [?v] @ R) = add_mset ?v (mset (take i xs))" using t by simp
    then show ?thesis
      using tk Suc.prems(5) v i by (simp add: take_Suc_conv_app_nth)
  qed
  have so: "sorted_wrt (\<lambda>a b. \<not> cmp b a) (take (Suc i) ?xs')"
    using insert_keeps_sorted [OF swo sub(1) sub(2) sub(3) _ R L] Suc.prems(6) t tk
    by simp
  have fl: "\<forall>a \<in> set xs0. filter (equiv_under cmp a) (take (Suc i) ?xs') =
                     filter (equiv_under cmp a) (take (Suc i) xs0)"
  proof
    fix a assume a: "a \<in> set xs0"
    have "filter (equiv_under cmp a) (L @ [?v] @ R) = filter (equiv_under cmp a) (L @ R @ [?v])"
      by (rule insert_keeps_ties [OF swo sub(2) sub(3) a R])
    also have "\<dots> = filter (equiv_under cmp a) (take i xs) @ filter (equiv_under cmp a) [?v]"
      using t by simp
    also have "\<dots> = filter (equiv_under cmp a) (take i xs0) @ filter (equiv_under cmp a) [xs0 ! i]"
      using Suc.prems(7) a v by simp
    also have "\<dots> = filter (equiv_under cmp a) (take (Suc i) xs0)"
      using i by (simp add: take_Suc_conv_app_nth)
    finally show "filter (equiv_under cmp a) (take (Suc i) ?xs') =
                  filter (equiv_under cmp a) (take (Suc i) xs0)"
      using tk by simp
  qed
  have k: "k = length xs0 - Suc i" using Suc.hyps(2) by simp
  have main: "mset (insertion_sort_loop cmp ?xs' 0 (Suc i) (length xs0)) = mset xs0 \<and>
     sorted_wrt (\<lambda>a b. \<not> cmp b a) (insertion_sort_loop cmp ?xs' 0 (Suc i) (length xs0)) \<and>
     (\<forall>a \<in> set xs0. filter (equiv_under cmp a)
                       (insertion_sort_loop cmp ?xs' 0 (Suc i) (length xs0)) =
                     filter (equiv_under cmp a) xs0)"
    using i by (intro Suc.hyps(1) [OF k _ _ ln dr ms so fl]) simp_all
  show ?case
    unfolding step by (rule main)
qed

text \<open>On at most 16 elements \<open>std::sort\<close> is \<open>__insertion_sort\<close>: the quicksort loop
  leaves the range as it is.\<close>

lemma libstdcxx_sort_small:
  assumes "xs \<noteq> []" "length xs \<le> 16"
  shows "libstdcxx_sort cmp xs = insertion_sort_loop cmp xs 0 1 (length xs)"
proof -
  have "introsort_loop cmp xs 0 (length xs) d = xs" for d
    using assms by (subst introsort_loop.simps) (simp add: S_threshold_def)
  then show ?thesis
    using assms
    by (simp add: libstdcxx_sort_def final_insertion_sort_def insertion_sort_def S_threshold_def)
qed

lemma libstdcxx_sort_stable:
  assumes swo: "strict_weak_order_on (set xs) cmp" and n: "length xs \<le> 16"
  shows "mset (libstdcxx_sort cmp xs) = mset xs \<and>
     sorted_wrt (\<lambda>a b. \<not> cmp b a) (libstdcxx_sort cmp xs) \<and>
     (\<forall>a \<in> set xs. filter (equiv_under cmp a) (libstdcxx_sort cmp xs) =
                    filter (equiv_under cmp a) xs)"
proof (cases "xs = []")
  case True
  then show ?thesis by (simp add: libstdcxx_sort_def)
next
  case False
  then have l: "0 < (1::nat)" "1 \<le> length xs"
    by (simp_all add: Suc_le_eq)
  have s: "sorted_wrt (\<lambda>a b. \<not> cmp b a) (take 1 xs)"
    using False by (cases xs) simp_all
  show ?thesis
    unfolding libstdcxx_sort_small [OF False n]
    by (rule insertion_sort_loop_stable [OF swo l refl refl refl s]) simp
qed

subsection \<open>The claims\<close>

text \<open>The numeric comparator with its fallback need not be a strict weak ordering:
  here it runs in a cycle over three lines, of which the last fails to parse.\<close>

lemma numeric_cmp_cycle:
  "sort_cmp parse_digits (<) True False 0 [] ''9'' '' 10'' \<and>
   sort_cmp parse_digits (<) True False 0 [] '' 10'' ''!'' \<and>
   sort_cmp parse_digits (<) True False 0 [] ''!'' ''9'' \<and>
   \<not> strict_weak_order_on (set [''9'', '' 10'', ''!''])
       (sort_cmp parse_digits (<) True False 0 [])"
  by code_simp

text \<open>
  Claim C1 says that the sort is stable: lines whose keys compare equal keep their input
  order. \<open>sort_impl\<close> sorts with \<open>std::sort\<close>, never with \<open>std::stable_sort\<close>, and from
  17 lines on \<open>std::sort\<close> runs its quicksort. Seventeen lines \<open>a 1\<close> to \<open>q 1\<close>, sorted
  by their second field, have equal keys, so a stable sort returns them as they are: the
  median of three puts the ninth line in front, and the partition turns the others round.
\<close>

theorem sort_ties_counterexample:
  "map (get_key 2 [])
     [''a 1'', ''b 1'', ''c 1'', ''d 1'', ''e 1'', ''f 1'', ''g 1'', ''h 1'', ''i 1'',
      ''j 1'', ''k 1'', ''l 1'', ''m 1'', ''n 1'', ''o 1'', ''p 1'', ''q 1''] =
     replicate 17 ''1'' \<and>
   sort_lines libstdcxx_sort parse_digits (<) False False False 2 [] False
     [''a 1'', ''b 1'', ''c 1'', ''d 1'', ''e 1'', ''f 1'', ''g 1'', ''h 1'', ''i 1'',
      ''j 1'', ''k 1'', ''l 1'', ''m 1'', ''n 1'', ''o 1'', ''p 1'', ''q 1''] =
     [''i 1'', ''q 1'', ''p 1'', ''o 1'', ''n 1'', ''m 1'', ''l 1'', ''k 1'', ''j 1'',
      ''a 1'', ''h 1'', ''g 1'', ''f 1'', ''e 1'', ''d 1'', ''c 1'', ''b 1'']"
  by code_simp

text \<open>
  In numeric mode the fallback of the comparator can break ties in a file of three lines.
  The lines \<open>9\<close> and \<open> 9\<close> (with a blank in front) have the same number as key, and \<open>!\<close>
  has none, so it is compared as text: it is less than \<open>9\<close>, and \<open> 9\<close> is less than
  it. \<open> 9\<close> goes to the front, past \<open>9\<close>.
\<close>

lemma numeric_fallback_breaks_ties:
  "equiv_under (sort_cmp parse_digits (<) True False 0 []) ''9'' '' 9'' \<and>
   \<not> strict_weak_order_on (set [''!'', ''9'', '' 9''])
       (sort_cmp parse_digits (<) True False 0 []) \<and>
   sort_lines libstdcxx_sort parse_digits (<) False True False 0 [] False
     [''!'', ''9'', '' 9''] = ['' 9'', ''!'', ''9'']"
  by code_simp

text \<open>
  Claim C1, amended. For every file of at most 16 lines and every flag combination (in
  numeric mode: provided the comparator is a strict weak ordering on the lines, as it
  always is in the other two modes), the sort is stable before \<open>reverse\<close> is applied: the
  lines come out as a permutation of the input in which no line compares less than an
  earlier one, and the lines that compare equal to any given line stand in the order they
  have in the input. For every file, \<open>reverse = true\<close> gives exactly the reversed sequence,
  with or without \<open>unique\<close>, and the comparator is the same.
\<close>

theorem sort_stable_up_to_16_lines_and_reverse_inverts:
  "(length lines \<le> 16 \<and>
    (numeric \<longrightarrow>
       strict_weak_order_on (set lines) (sort_cmp stod dless True ignore_case key separator)) \<longrightarrow>
    mset (sort_lines libstdcxx_sort stod dless False numeric False key separator ignore_case lines)
      = mset lines \<and>
    sorted_wrt (\<lambda>a b. \<not> sort_cmp stod dless numeric ignore_case key separator b a)
      (sort_lines libstdcxx_sort stod dless False numeric False key separator ignore_case lines) \<and>
    (\<forall>a \<in> set lines.
       filter (equiv_under (sort_cmp stod dless numeric ignore_case key separator) a)
         (sort_lines libstdcxx_sort stod dless False numeric False key separator ignore_case
            lines) =
       filter (equiv_under (sort_cmp stod dless numeric ignore_case key separator) a) lines)) \<and>
   sort_lines std_sort stod dless True numeric unique key separator ignore_case lines =
     rev (sort_lines std_sort stod dless False numeric unique key separator ignore_case lines)"
  (is "(?H \<longrightarrow> ?C) \<and> ?R")
proof (rule conjI)
  let ?cmp = "sort_cmp stod dless numeric ignore_case key separator"
  show "?H \<longrightarrow> ?C"
  proof (rule impI)
    assume h: ?H
    then have swo: "strict_weak_order_on (set lines) ?cmp"
      using sort_cmp_swo [of "set lines" stod dless ignore_case key separator]
      by (cases numeric) simp_all
    have n: "length lines \<le> 16" using h by simp
    have "mset (libstdcxx_sort ?cmp lines) = mset lines \<and>
       sorted_wrt (\<lambda>a b. \<not> ?cmp b a) (libstdcxx_sort ?cmp lines) \<and>
       (\<forall>a \<in> set lines. filter (equiv_under ?cmp a) (libstdcxx_sort ?cmp lines) =
                         filter (equiv_under ?cmp a) lines)"
      by (rule libstdcxx_sort_stable [OF swo n])
    then show ?C
      by (simp add: sort_lines_def Let_def)
  qed
next
  show ?R
    by (simp add: sort_lines_def Let_def remdups_adj_rev)
qed

text \<open>Four lines in numeric mode on the second field: \<open>x 30\<close> stays in front of \<open>a 30\<close>
  and \<open>c 9\<close> in front of \<open>b 9\<close>, as in the input.\<close>

theorem sort_stable_witness:
  "length [''x 30'', ''c 9'', ''a 30'', ''b 9''] \<le> 16 \<and>
   strict_weak_order_on (set [''x 30'', ''c 9'', ''a 30'', ''b 9''])
     (sort_cmp parse_digits (<) True False 2 []) \<and>
   sort_lines libstdcxx_sort parse_digits (<) False True False 2 [] False
     [''x 30'', ''c 9'', ''a 30'', ''b 9''] = [''c 9'', ''b 9'', ''x 30'', ''a 30''] \<and>
   filter (equiv_under (sort_cmp parse_digits (<) True False 2 []) ''a 30'')
     (sort_lines libstdcxx_sort parse_digits (<) False True False 2 [] False
        [''x 30'', ''c 9'', ''a 30'', ''b 9'']) =
   filter (equiv_under (sort_cmp parse_digits (<) True False 2 []) ''a 30'')
     [''x 30'', ''c 9'', ''a 30'', ''b 9''] \<and>
   sort_lines libstdcxx_sort parse_digits (<) True True False 2 [] False
     [''x 30'', ''c 9'', ''a 30'', ''b 9''] = [''a 30'', ''x 30'', ''b 9'', ''c 9'']"
proof -
  let ?lines = "[''x 30'', ''c 9'', ''a 30'', ''b 9'']"
  let ?cmp = "sort_cmp parse_digits (<) True False 2 []"
  have n: "length ?lines \<le> 16"
    by simp
  have s: "strict_weak_order_on (set ?lines) ?cmp"
    by code_simp
  have h: "length ?lines \<le> 16 \<and> (True \<longrightarrow> strict_weak_order_on (set ?lines) ?cmp)"
    using n s by simp
  have v: "sort_lines libstdcxx_sort parse_digits (<) False True False 2 [] False ?lines
             = [''c 9'', ''b 9'', ''x 30'', ''a 30'']"
    by code_simp
  have a: "''a 30'' \<in> set ?lines"
    by simp
  note inst = sort_stable_up_to_16_lines_and_reverse_inverts [where lines = ?lines
      and numeric = True and stod = parse_digits and dless = "(<)" and ignore_case = False
      and key = 2 and separator = "[]" and std_sort = libstdcxx_sort and unique = False]
  have f: "filter (equiv_under ?cmp ''a 30'')
     (sort_lines libstdcxx_sort parse_digits (<) False True False 2 [] False ?lines) =
     filter (equiv_under ?cmp ''a 30'') ?lines"
    by (rule inst [THEN conjunct1, THEN mp, OF h, THEN conjunct2, THEN conjunct2,
          THEN bspec, OF a])
  have "sort_lines libstdcxx_sort parse_digits (<) True True False 2 [] False ?lines =
        rev (sort_lines libstdcxx_sort parse_digits (<) False True False 2 [] False ?lines)"
    by (rule inst [THEN conjunct2])
  then have r: "sort_lines libstdcxx_sort parse_digits (<) True True False 2 [] False ?lines =
        [''a 30'', ''x 30'', ''b 9'', ''c 9'']"
    by (simp add: v)
  show ?thesis
    by (rule conjI [OF n conjI [OF s conjI [OF v conjI [OF f r]]]])
qed

text \<open>
  Claim C4. In numeric mode, when the key of either of the two lines fails to parse, the
  comparator is the byte-wise comparison of the two whole lines, not of their keys. The
  failure is no error: the comparator returns a truth value for every pair of lines.
\<close>

theorem numeric_parse_failure_compares_whole_lines:
  assumes "stod (get_key key separator a) = None \<or> stod (get_key key separator b) = None"
  shows "sort_cmp stod dless True ignore_case key separator a b = (a < b)"
  using assms by (auto simp: sort_cmp_def split: option.splits)

theorem numeric_parse_failure_witness:
  "parse_digits (get_key 2 [] ''a z'') = None \<and>
   sort_cmp parse_digits (<) True False 2 [] ''a z'' ''b 5'' = (''a z'' < ''b 5'') \<and>
   (''a z'' < ''b 5'') \<and> \<not> (get_key 2 [] ''a z'' < get_key 2 [] ''b 5'')"
proof -
  have h: "parse_digits (get_key 2 [] ''a z'') = None" by code_simp
  then have "parse_digits (get_key 2 [] ''a z'') = None \<or> parse_digits (get_key 2 [] ''b 5'') = None"
    by (rule disjI1)
  then have "sort_cmp parse_digits (<) True False 2 [] ''a z'' ''b 5'' = (''a z'' < ''b 5'')"
    by (rule numeric_parse_failure_compares_whole_lines)
  moreover have "''a z'' < ''b 5''" by code_simp
  moreover have "\<not> (get_key 2 [] ''a z'' < get_key 2 [] ''b 5'')" by code_simp
  ultimately show ?thesis using h by blast
qed

section \<open>diff\<close>

declare backtrack.simps [simp del]

lemma backtrack_stop: "backtrack dp xs ys 0 0 diffs = diffs"
  by (subst backtrack.simps) simp

lemma backtrack_equal:
  "i > 0 \<Longrightarrow> j > 0 \<Longrightarrow> xs ! (i - 1) = ys ! (j - 1) \<Longrightarrow>
   backtrack dp xs ys i j diffs =
   backtrack dp xs ys (i - 1) (j - 1)
     (diffs @ [\<lparr>dl_type = CHR '' '', dl_text = xs ! (i - 1), line1 = int i, line2 = int j\<rparr>])"
  by (subst backtrack.simps) simp

lemma backtrack_insert:
  "j > 0 \<Longrightarrow> \<not> (i > 0 \<and> xs ! (i - 1) = ys ! (j - 1)) \<Longrightarrow>
   i = 0 \<or> dp ! i ! (j - 1) \<ge> dp ! (i - 1) ! j \<Longrightarrow>
   backtrack dp xs ys i j diffs =
   backtrack dp xs ys i (j - 1)
     (diffs @ [\<lparr>dl_type = CHR ''+'', dl_text = ys ! (j - 1), line1 = 0, line2 = int j\<rparr>])"
  by (subst backtrack.simps) auto

lemma backtrack_delete:
  "i > 0 \<Longrightarrow> \<not> (j > 0 \<and> xs ! (i - 1) = ys ! (j - 1)) \<Longrightarrow>
   \<not> (j > 0 \<and> dp ! i ! (j - 1) \<ge> dp ! (i - 1) ! j) \<Longrightarrow>
   backtrack dp xs ys i j diffs =
   backtrack dp xs ys (i - 1) j
     (diffs @ [\<lparr>dl_type = CHR ''-'', dl_text = xs ! (i - 1), line1 = int i, line2 = 0\<rparr>])"
  by (subst backtrack.simps) auto

lemma backtrack_cases [case_names stop equal insert delete]:
  assumes "i = 0 \<Longrightarrow> j = 0 \<Longrightarrow> P"
    and "i > 0 \<Longrightarrow> j > 0 \<Longrightarrow> xs ! (i - 1) = ys ! (j - 1) \<Longrightarrow> P"
    and "j > 0 \<Longrightarrow> \<not> (i > 0 \<and> xs ! (i - 1) = ys ! (j - 1)) \<Longrightarrow>
         i = 0 \<or> (dp :: int list list) ! i ! (j - 1) \<ge> dp ! (i - 1) ! j \<Longrightarrow> P"
    and "i > 0 \<Longrightarrow> \<not> (j > 0 \<and> xs ! (i - 1) = ys ! (j - 1)) \<Longrightarrow>
         \<not> (j > 0 \<and> dp ! i ! (j - 1) \<ge> dp ! (i - 1) ! j) \<Longrightarrow> P"
  shows P
proof (cases "i > 0 \<and> j > 0 \<and> xs ! (i - 1) = ys ! (j - 1)")
  case True
  then show ?thesis by (intro assms(2)) simp_all
next
  case ne: False
  show ?thesis
  proof (cases "j > 0 \<and> (i = 0 \<or> dp ! i ! (j - 1) \<ge> dp ! (i - 1) ! j)")
    case True
    with ne show ?thesis by (intro assms(3)) auto
  next
    case no_insert: False
    show ?thesis
    proof (cases "i = 0")
      case True
      with no_insert show ?thesis by (intro assms(1)) auto
    next
      case False
      with ne no_insert show ?thesis by (intro assms(4)) auto
    qed
  qed
qed

lemma backtrack_acc:
  "backtrack dp xs ys i j diffs = diffs @ backtrack dp xs ys i j []"
proof (induction n \<equiv> "i + j" arbitrary: i j diffs rule: less_induct)
  case less
  show ?case
  proof (cases rule: backtrack_cases [where i=i and j=j and xs=xs and ys=ys and dp=dp])
    case stop
    then show ?thesis by (simp add: backtrack_stop)
  next
    case equal
    let ?d = "\<lparr>dl_type = CHR '' '', dl_text = xs ! (i - 1), line1 = int i, line2 = int j\<rparr>"
    have lt: "i - 1 + (j - 1) < i + j" using equal by simp
    have "backtrack dp xs ys i j diffs = (diffs @ [?d]) @ backtrack dp xs ys (i - 1) (j - 1) []"
      by (subst backtrack_equal [OF equal]) (rule less [OF lt])
    moreover have "backtrack dp xs ys i j [] = ([] @ [?d]) @ backtrack dp xs ys (i - 1) (j - 1) []"
      by (subst backtrack_equal [OF equal]) (rule less [OF lt])
    ultimately show ?thesis by simp
  next
    case insert
    let ?d = "\<lparr>dl_type = CHR ''+'', dl_text = ys ! (j - 1), line1 = 0, line2 = int j\<rparr>"
    have lt: "i + (j - 1) < i + j" using insert by simp
    have "backtrack dp xs ys i j diffs = (diffs @ [?d]) @ backtrack dp xs ys i (j - 1) []"
      by (subst backtrack_insert [OF insert]) (rule less [OF lt])
    moreover have "backtrack dp xs ys i j [] = ([] @ [?d]) @ backtrack dp xs ys i (j - 1) []"
      by (subst backtrack_insert [OF insert]) (rule less [OF lt])
    ultimately show ?thesis by simp
  next
    case delete
    let ?d = "\<lparr>dl_type = CHR ''-'', dl_text = xs ! (i - 1), line1 = int i, line2 = 0\<rparr>"
    have lt: "i - 1 + j < i + j" using delete by simp
    have "backtrack dp xs ys i j diffs = (diffs @ [?d]) @ backtrack dp xs ys (i - 1) j []"
      by (subst backtrack_delete [OF delete]) (rule less [OF lt])
    moreover have "backtrack dp xs ys i j [] = ([] @ [?d]) @ backtrack dp xs ys (i - 1) j []"
      by (subst backtrack_delete [OF delete]) (rule less [OF lt])
    ultimately show ?thesis by simp
  qed
qed

lemma patch_append:
  "patch ops1 as1 = Some bs1 \<Longrightarrow>
   patch (ops1 @ ops2) (as1 @ as2) = map_option (\<lambda>bs. bs1 @ bs) (patch ops2 as2)"
proof (induction ops1 as1 arbitrary: bs1 rule: patch.induct)
  case 1
  then show ?case by (simp add: option.map_ident)
next
  case (2 a as)
  then show ?case by simp
next
  case (3 d ds as)
  then show ?case
    by (cases "patch ops2 as2") (auto split: if_splits list.splits)
qed

lemma take_last:
  "0 < i \<Longrightarrow> i \<le> length xs \<Longrightarrow> take i xs = take (i - 1) xs @ [xs ! (i - 1)]"
  by (cases i) (simp_all add: take_Suc_conv_app_nth)

lemma backtrack_patch:
  "i \<le> length xs \<Longrightarrow> j \<le> length ys \<Longrightarrow>
   patch (rev (backtrack dp xs ys i j [])) (take i xs) = Some (take j ys)"
proof (induction n \<equiv> "i + j" arbitrary: i j rule: less_induct)
  case less
  show ?case
  proof (cases rule: backtrack_cases [where i=i and j=j and xs=xs and ys=ys and dp=dp])
    case stop
    then show ?thesis by (simp add: backtrack_stop)
  next
    case equal
    let ?d = "\<lparr>dl_type = CHR '' '', dl_text = xs ! (i - 1), line1 = int i, line2 = int j\<rparr>"
    from equal less.prems have IH:
      "patch (rev (backtrack dp xs ys (i - 1) (j - 1) [])) (take (i - 1) xs) = Some (take (j - 1) ys)"
      by (intro less.hyps) auto
    have bt: "backtrack dp xs ys i j [] = ?d # backtrack dp xs ys (i - 1) (j - 1) []"
      using backtrack_equal [OF equal, of dp "[]"] backtrack_acc [of dp xs ys "i - 1" "j - 1" "[?d]"]
      by simp
    have t1: "take i xs = take (i - 1) xs @ [xs ! (i - 1)]"
      using equal less.prems by (intro take_last) auto
    have t2: "take j ys = take (j - 1) ys @ [ys ! (j - 1)]"
      using equal less.prems by (intro take_last) auto
    have "patch (rev (backtrack dp xs ys (i - 1) (j - 1) []) @ [?d])
            (take (i - 1) xs @ [xs ! (i - 1)]) =
          map_option ((@) (take (j - 1) ys)) (patch [?d] [xs ! (i - 1)])"
      by (rule patch_append [OF IH])
    also have "\<dots> = Some (take (j - 1) ys @ [ys ! (j - 1)])"
      using equal by simp
    finally show ?thesis
      using t1 t2 by (simp add: bt)
  next
    case insert
    let ?d = "\<lparr>dl_type = CHR ''+'', dl_text = ys ! (j - 1), line1 = 0, line2 = int j\<rparr>"
    from insert less.prems have IH:
      "patch (rev (backtrack dp xs ys i (j - 1) [])) (take i xs) = Some (take (j - 1) ys)"
      by (intro less.hyps) auto
    have bt: "backtrack dp xs ys i j [] = ?d # backtrack dp xs ys i (j - 1) []"
      using backtrack_insert [OF insert, of "[]"] backtrack_acc [of dp xs ys i "j - 1" "[?d]"]
      by simp
    have t2: "take j ys = take (j - 1) ys @ [ys ! (j - 1)]"
      using insert less.prems by (intro take_last) auto
    have "patch (rev (backtrack dp xs ys i (j - 1) []) @ [?d]) (take i xs @ []) =
          map_option ((@) (take (j - 1) ys)) (patch [?d] [])"
      by (rule patch_append [OF IH])
    also have "\<dots> = Some (take (j - 1) ys @ [ys ! (j - 1)])"
      by simp
    finally show ?thesis
      using t2 by (simp add: bt)
  next
    case delete
    let ?d = "\<lparr>dl_type = CHR ''-'', dl_text = xs ! (i - 1), line1 = int i, line2 = 0\<rparr>"
    from delete less.prems have IH:
      "patch (rev (backtrack dp xs ys (i - 1) j [])) (take (i - 1) xs) = Some (take j ys)"
      by (intro less.hyps) auto
    have bt: "backtrack dp xs ys i j [] = ?d # backtrack dp xs ys (i - 1) j []"
      using backtrack_delete [OF delete, of "[]"] backtrack_acc [of dp xs ys "i - 1" j "[?d]"]
      by simp
    have t1: "take i xs = take (i - 1) xs @ [xs ! (i - 1)]"
      using delete less.prems by (intro take_last) auto
    have "patch (rev (backtrack dp xs ys (i - 1) j []) @ [?d])
            (take (i - 1) xs @ [xs ! (i - 1)]) =
          map_option ((@) (take j ys)) (patch [?d] [xs ! (i - 1)])"
      by (rule patch_append [OF IH])
    also have "\<dots> = Some (take j ys)"
      by simp
    finally show ?thesis
      using t1 by (simp add: bt)
  qed
qed

text \<open>
  Claim C2. For all line sequences \<open>A\<close> and \<open>B\<close>, applying the edit script of
  \<open>diff_impl\<close> to \<open>A\<close> (keeping the line at every entry of type \<open>' '\<close>, emitting the text
  of every entry of type \<open>'+'\<close>, skipping the line at every entry of type \<open>'-'\<close>) succeeds
  and gives exactly \<open>B\<close>.
\<close>

theorem diff_round_trip: "patch (diff_lines A B) A = Some B"
  using backtrack_patch [of "length A" A "length B" B "lcs_dp A B"]
  by (simp add: diff_lines_def)

theorem diff_round_trip_witness:
  "patch (diff_lines [''a'', ''b'', ''c''] [''a'', ''x'', ''c'']) [''a'', ''b'', ''c'']
     = Some [''a'', ''x'', ''c'']"
  by (rule diff_round_trip)

text \<open>Adding a line to either list never lowers the length and raises it by at most one.\<close>

lemma lcs_length_bounds:
  "lcs_length xs ys \<le> lcs_length (x # xs) ys \<and>
   lcs_length xs ys \<le> lcs_length xs (y # ys) \<and>
   lcs_length (x # xs) ys \<le> Suc (lcs_length xs ys) \<and>
   lcs_length xs (y # ys) \<le> Suc (lcs_length xs ys)"
proof (induction n \<equiv> "length xs + length ys" arbitrary: xs ys x y rule: less_induct)
  case less
  note IH = less.hyps
  have m1: "lcs_length xs ys \<le> lcs_length (x # xs) ys"
  proof (cases ys)
    case Nil
    then show ?thesis by (cases xs) simp_all
  next
    case (Cons b ys')
    have "lcs_length xs (b # ys') \<le> Suc (lcs_length xs ys')"
      using IH [of xs ys'] Cons by simp
    then show ?thesis using Cons by auto
  qed
  have m2: "lcs_length xs ys \<le> lcs_length xs (y # ys)"
  proof (cases xs)
    case Nil
    then show ?thesis by simp
  next
    case (Cons a xs')
    have "lcs_length (a # xs') ys \<le> Suc (lcs_length xs' ys)"
      using IH [of xs' ys] Cons by simp
    then show ?thesis using Cons by auto
  qed
  have u1: "lcs_length (x # xs) ys \<le> Suc (lcs_length xs ys)"
  proof (cases ys)
    case Nil
    then show ?thesis by simp
  next
    case (Cons b ys')
    have a: "lcs_length xs ys' \<le> lcs_length xs (b # ys')"
      using IH [of xs ys'] Cons by simp
    have b: "lcs_length (x # xs) ys' \<le> Suc (lcs_length xs ys')"
      using IH [of xs ys'] Cons by simp
    from a b show ?thesis using Cons by auto
  qed
  have u2: "lcs_length xs (y # ys) \<le> Suc (lcs_length xs ys)"
  proof (cases xs)
    case Nil
    then show ?thesis by simp
  next
    case (Cons a xs')
    have c: "lcs_length xs' ys \<le> lcs_length (a # xs') ys"
      using IH [of xs' ys] Cons by simp
    have d: "lcs_length xs' (y # ys) \<le> Suc (lcs_length xs' ys)"
      using IH [of xs' ys] Cons by simp
    from c d show ?thesis using Cons by auto
  qed
  from m1 m2 u1 u2 show ?case by simp
qed

lemma patch_length:
  "patch ops as = Some bs \<Longrightarrow> length ops + count_equal ops = length as + length bs"
proof (induction ops as arbitrary: bs rule: patch.induct)
  case 1
  then show ?case by (simp add: count_equal_def)
next
  case (2 a as)
  then show ?case by simp
next
  case (3 d ds as)
  then show ?case
    by (auto simp: count_equal_def split: if_splits list.splits)
qed

lemma patch_count_equal:
  "patch ops as = Some bs \<Longrightarrow> count_equal ops \<le> lcs_length as bs"
proof (induction ops as arbitrary: bs rule: patch.induct)
  case 1
  then show ?case by (simp add: count_equal_def)
next
  case (2 a as)
  then show ?case by simp
next
  case (3 d ds as)
  show ?case
  proof (cases "dl_type d = CHR ''+''")
    case True
    with "3.prems" obtain bs' where bs: "bs = dl_text d # bs'" "patch ds as = Some bs'"
      by auto
    have "count_equal ds \<le> lcs_length as bs'"
      using "3.IH"(1) [OF True bs(2)] .
    also have "\<dots> \<le> lcs_length as (dl_text d # bs')"
      using lcs_length_bounds [of as bs'] by simp
    finally show ?thesis using True bs by (simp add: count_equal_def)
  next
    case plus: False
    with "3.prems" obtain a as' where as: "as = a # as'" "dl_text d = a"
      by (auto split: list.splits if_splits)
    show ?thesis
    proof (cases "dl_type d = CHR '' ''")
      case True
      with "3.prems" plus as obtain bs' where bs: "bs = a # bs'" "patch ds as' = Some bs'"
        by auto
      have "count_equal ds \<le> lcs_length as' bs'"
        using "3.IH"(2) [OF plus as(1) _ True bs(2)] as by simp
      then show ?thesis using True as bs by (simp add: count_equal_def)
    next
      case False
      with "3.prems" plus as have m: "dl_type d = CHR ''-''" "patch ds as' = Some bs"
        by (auto split: if_splits)
      have "count_equal ds \<le> lcs_length as' bs"
        using "3.IH"(3) [OF plus as(1) _ False m] as by simp
      also have "\<dots> \<le> lcs_length (a # as') bs"
        using lcs_length_bounds [of as' bs] by simp
      finally show ?thesis using False plus as by (simp add: count_equal_def)
    qed
  qed
qed

lemma patch_rev:
  "patch ops as = Some bs \<Longrightarrow> patch (rev ops) (rev as) = Some (rev bs)"
proof (induction ops as arbitrary: bs rule: patch.induct)
  case 1
  then show ?case by simp
next
  case (2 a as)
  then show ?case by simp
next
  case (3 d ds as)
  show ?case
  proof (cases "dl_type d = CHR ''+''")
    case True
    with "3.prems" obtain bs' where bs: "bs = dl_text d # bs'" "patch ds as = Some bs'"
      by auto
    have "patch (rev ds @ [d]) (rev as @ []) = map_option ((@) (rev bs')) (patch [d] [])"
      by (rule patch_append [OF "3.IH"(1) [OF True bs(2)]])
    then show ?thesis using True bs by simp
  next
    case plus: False
    with "3.prems" obtain a as' where as: "as = a # as'" "dl_text d = a"
      by (auto split: list.splits if_splits)
    show ?thesis
    proof (cases "dl_type d = CHR '' ''")
      case True
      with "3.prems" plus as obtain bs' where bs: "bs = a # bs'" "patch ds as' = Some bs'"
        by auto
      have IH: "patch (rev ds) (rev as') = Some (rev bs')"
        using "3.IH"(2) [OF plus as(1) _ True bs(2)] as by simp
      have "patch (rev ds @ [d]) (rev as' @ [a]) = map_option ((@) (rev bs')) (patch [d] [a])"
        by (rule patch_append [OF IH])
      then show ?thesis using True as bs by simp
    next
      case False
      with "3.prems" plus as have m: "dl_type d = CHR ''-''" "patch ds as' = Some bs"
        by (auto split: if_splits)
      have IH: "patch (rev ds) (rev as') = Some (rev bs)"
        using "3.IH"(3) [OF plus as(1) _ False m] as by simp
      have "patch (rev ds @ [d]) (rev as' @ [a]) = map_option ((@) (rev bs)) (patch [d] [a])"
        by (rule patch_append [OF IH])
      then show ?thesis using m as by simp
    qed
  qed
qed

lemma count_equal_rev: "count_equal (rev ops) = count_equal ops"
  by (simp add: count_equal_def flip: rev_filter)

lemma script_count_equal_bound:
  assumes "patch ops as = Some bs"
  shows "count_equal ops \<le> lcs_length (rev as) (rev bs)"
  using patch_count_equal [OF patch_rev [OF assms]] by (simp add: count_equal_rev)

lemma lcs_length_Nil2 [simp]: "lcs_length xs [] = 0"
  by (cases xs) simp_all

lemma lcs_cell_0 [simp]: "lcs_cell A B 0 j = 0" "lcs_cell A B i 0 = 0"
  by (simp_all add: lcs_cell_def)

lemma lcs_cell_rec:
  assumes "0 < i" "i \<le> length A" "0 < j" "j \<le> length B"
  shows "lcs_cell A B i j =
           (if A ! (i - 1) = B ! (j - 1) then lcs_cell A B (i - 1) (j - 1) + 1
            else max (lcs_cell A B (i - 1) j) (lcs_cell A B i (j - 1)))"
proof -
  have a: "rev (take i A) = A ! (i - 1) # rev (take (i - 1) A)"
    using take_last [OF assms(1,2)] by simp
  have b: "rev (take j B) = B ! (j - 1) # rev (take (j - 1) B)"
    using take_last [OF assms(3,4)] by simp
  have "lcs_length (rev (take i A)) (rev (take j B)) =
        (if A ! (i - 1) = B ! (j - 1)
         then 1 + lcs_length (rev (take (i - 1) A)) (rev (take (j - 1) B))
         else max (lcs_length (rev (take (i - 1) A)) (B ! (j - 1) # rev (take (j - 1) B)))
                  (lcs_length (A ! (i - 1) # rev (take (i - 1) A)) (rev (take (j - 1) B))))"
    by (subst a, subst b) simp
  also have "\<dots> =
        (if A ! (i - 1) = B ! (j - 1)
         then 1 + lcs_length (rev (take (i - 1) A)) (rev (take (j - 1) B))
         else max (lcs_length (rev (take (i - 1) A)) (rev (take j B)))
                  (lcs_length (rev (take i A)) (rev (take (j - 1) B))))"
    by (simp only: a [symmetric] b [symmetric])
  finally show ?thesis
    by (simp add: lcs_cell_def of_nat_max)
qed

lemma dp_init_nth: "a \<le> n \<Longrightarrow> b \<le> m \<Longrightarrow> dp_init n m ! a ! b = 0"
  by (simp add: dp_init_def del: replicate.simps)

lemma dp_init_length:
  "length (dp_init n m) = n + 1" "r < n + 1 \<Longrightarrow> length (dp_init n m ! r) = m + 1"
  by (simp_all add: dp_init_def del: replicate.simps)

lemma filled_init: "filled_upto A B (dp_init (length A) (length B)) 1 1"
proof -
  have "lcs_cell A B a b = 0" if "a < 1 \<or> (a = 1 \<and> b < 1)" for a b
    using that by auto
  then show ?thesis
    unfolding filled_upto_def by (simp add: dp_init_nth dp_init_length)
qed

lemma filled_cell:
  assumes f: "filled_upto A B dp i j" and i: "0 < i" "i \<le> length A" and j: "0 < j" "j \<le> length B"
  shows "dp_cell A B dp i j = lcs_cell A B i j"
proof -
  have v: "dp ! a ! b = lcs_cell A B a b"
    if "a \<le> length A" "b \<le> length B" "a < i \<or> (a = i \<and> b < j)" for a b
    using f that unfolding filled_upto_def by blast
  have "dp ! (i - 1) ! (j - 1) = lcs_cell A B (i - 1) (j - 1)"
    "dp ! (i - 1) ! j = lcs_cell A B (i - 1) j"
    "dp ! i ! (j - 1) = lcs_cell A B i (j - 1)"
    using i j by (auto intro!: v)
  then show ?thesis
    by (simp add: dp_cell_def lcs_cell_rec [OF i j])
qed

lemma filled_step:
  assumes f: "filled_upto A B dp i j" and i: "0 < i" "i \<le> length A" and j: "0 < j" "j \<le> length B"
  shows "filled_upto A B (dp[i := (dp ! i)[j := dp_cell A B dp i j]]) i (j + 1)"
proof -
  let ?dp = "dp[i := (dp ! i)[j := dp_cell A B dp i j]]"
  have len: "length dp = length A + 1" and rows: "\<And>r. r < length dp \<Longrightarrow> length (dp ! r) = length B + 1"
    and col: "\<And>a. a \<le> length A \<Longrightarrow> dp ! a ! 0 = 0"
    and v: "\<And>a b. a \<le> length A \<Longrightarrow> b \<le> length B \<Longrightarrow> a < i \<or> (a = i \<and> b < j) \<Longrightarrow>
              dp ! a ! b = lcs_cell A B a b"
    using f unfolding filled_upto_def by blast+
  have il: "i < length dp" using i len by simp
  have jl: "j < length (dp ! i)" using j rows [OF il] by simp
  have get: "?dp ! a ! b = (if a = i \<and> b = j then dp_cell A B dp i j else dp ! a ! b)"
    if "a < length dp" for a b
    using that il jl by (auto simp: nth_list_update)
  have 1: "length ?dp = length A + 1" using len by simp
  have 2: "length (?dp ! r) = length B + 1" if "r < length ?dp" for r
    using that rows [of r] il by (cases "r = i") (simp_all add: nth_list_update)
  have 3: "?dp ! a ! 0 = 0" if "a \<le> length A" for a
    using that col [of a] j len il jl by (auto simp: nth_list_update)
  have 4: "?dp ! a ! b = lcs_cell A B a b"
    if "a \<le> length A" "b \<le> length B" "a < i \<or> (a = i \<and> b < j + 1)" for a b
  proof (cases "a = i \<and> b = j")
    case True
    then show ?thesis using il jl filled_cell [OF f i j] by simp
  next
    case False
    with that have "a < i \<or> (a = i \<and> b < j)" by auto
    with that False len il jl v [of a b] show ?thesis by (auto simp: nth_list_update)
  qed
  show ?thesis
    unfolding filled_upto_def using 1 2 3 4 by blast
qed

lemma filled_row_upto:
  assumes i: "0 < i" "i \<le> length A" and f: "filled_upto A B dp i 1"
  shows "k \<le> length B \<Longrightarrow>
         filled_upto A B
           (fold (\<lambda>j dp. dp[i := (dp ! i)[j := dp_cell A B dp i j]]) [1 ..< k + 1] dp) i (k + 1)"
proof (induction k)
  case 0
  then show ?case using f by simp
next
  case (Suc k)
  then have IH: "filled_upto A B
      (fold (\<lambda>j dp. dp[i := (dp ! i)[j := dp_cell A B dp i j]]) [1 ..< k + 1] dp) i (k + 1)"
    by simp
  have "[1 ..< Suc k + 1] = [1 ..< k + 1] @ [k + 1]" by simp
  then show ?case
    using filled_step [OF IH i, of ] Suc.prems by (simp del: upt_Suc)
qed

lemma filled_row:
  assumes "0 < i" "i \<le> length A" "filled_upto A B dp i 1"
  shows "filled_upto A B (dp_row A B i dp) (i + 1) 1"
proof -
  let ?dp = "dp_row A B i dp"
  have "filled_upto A B ?dp i (length B + 1)"
    unfolding dp_row_def by (rule filled_row_upto [OF assms order_refl])
  then have len: "length ?dp = length A + 1"
    and rows: "\<forall>r < length ?dp. length (?dp ! r) = length B + 1"
    and col: "\<forall>a \<le> length A. ?dp ! a ! 0 = 0"
    and v: "\<And>a b. a \<le> length A \<Longrightarrow> b \<le> length B \<Longrightarrow>
              a < i \<or> (a = i \<and> b < length B + 1) \<Longrightarrow> ?dp ! a ! b = lcs_cell A B a b"
    unfolding filled_upto_def by blast+
  have "?dp ! a ! b = lcs_cell A B a b"
    if "a \<le> length A" "b \<le> length B" "a < i + 1 \<or> (a = i + 1 \<and> b < 1)" for a b
  proof (cases "a \<le> i")
    case True
    with that have "a < i \<or> (a = i \<and> b < length B + 1)" by auto
    with that show ?thesis by (intro v)
  next
    case False
    with that have "b = 0" by auto
    with that col show ?thesis by simp
  qed
  with len rows col show ?thesis
    unfolding filled_upto_def by blast
qed

lemma filled_rows_upto:
  "k \<le> length A \<Longrightarrow>
   filled_upto A B (fold (dp_row A B) [1 ..< k + 1] (dp_init (length A) (length B))) (k + 1) 1"
proof (induction k)
  case 0
  then show ?case using filled_init by simp
next
  case (Suc k)
  then have IH: "filled_upto A B
      (fold (dp_row A B) [1 ..< k + 1] (dp_init (length A) (length B))) (k + 1) 1"
    by simp
  have "[1 ..< Suc k + 1] = [1 ..< k + 1] @ [k + 1]" by simp
  then show ?case
    using filled_row [OF _ _ IH] Suc.prems by (simp del: upt_Suc)
qed

lemma lcs_dp_correct:
  assumes "i \<le> length A" "j \<le> length B"
  shows "lcs_dp A B ! i ! j = lcs_cell A B i j"
proof -
  have "filled_upto A B (lcs_dp A B) (length A + 1) 1"
    unfolding lcs_dp_def by (rule filled_rows_upto [OF order_refl])
  then show ?thesis
    using assms unfolding filled_upto_def by auto
qed

lemma backtrack_equal_Cons:
  assumes "i > 0" "j > 0" "xs ! (i - 1) = ys ! (j - 1)"
  shows "backtrack dp xs ys i j [] =
    \<lparr>dl_type = CHR '' '', dl_text = xs ! (i - 1), line1 = int i, line2 = int j\<rparr> #
    backtrack dp xs ys (i - 1) (j - 1) []"
  using backtrack_equal [OF assms, of dp "[]"]
    backtrack_acc [of dp xs ys "i - 1" "j - 1"
      "[\<lparr>dl_type = CHR '' '', dl_text = xs ! (i - 1), line1 = int i, line2 = int j\<rparr>]"]
  by simp

lemma backtrack_insert_Cons:
  assumes "j > 0" "\<not> (i > 0 \<and> xs ! (i - 1) = ys ! (j - 1))"
    "i = 0 \<or> dp ! i ! (j - 1) \<ge> dp ! (i - 1) ! j"
  shows "backtrack dp xs ys i j [] =
    \<lparr>dl_type = CHR ''+'', dl_text = ys ! (j - 1), line1 = 0, line2 = int j\<rparr> #
    backtrack dp xs ys i (j - 1) []"
  using backtrack_insert [OF assms, of "[]"]
    backtrack_acc [of dp xs ys i "j - 1"
      "[\<lparr>dl_type = CHR ''+'', dl_text = ys ! (j - 1), line1 = 0, line2 = int j\<rparr>]"]
  by simp

lemma backtrack_delete_Cons:
  assumes "i > 0" "\<not> (j > 0 \<and> xs ! (i - 1) = ys ! (j - 1))"
    "\<not> (j > 0 \<and> dp ! i ! (j - 1) \<ge> dp ! (i - 1) ! j)"
  shows "backtrack dp xs ys i j [] =
    \<lparr>dl_type = CHR ''-'', dl_text = xs ! (i - 1), line1 = int i, line2 = 0\<rparr> #
    backtrack dp xs ys (i - 1) j []"
  using backtrack_delete [OF assms, of "[]"]
    backtrack_acc [of dp xs ys "i - 1" j
      "[\<lparr>dl_type = CHR ''-'', dl_text = xs ! (i - 1), line1 = int i, line2 = 0\<rparr>]"]
  by simp

lemma backtrack_count:
  assumes dp: "\<And>a b. a \<le> length xs \<Longrightarrow> b \<le> length ys \<Longrightarrow> dp ! a ! b = lcs_cell xs ys a b"
  shows "i \<le> length xs \<Longrightarrow> j \<le> length ys \<Longrightarrow>
    int (count_equal (backtrack dp xs ys i j [])) = lcs_cell xs ys i j \<and>
    length (backtrack dp xs ys i j []) + count_equal (backtrack dp xs ys i j []) = i + j"
proof (induction n \<equiv> "i + j" arbitrary: i j rule: less_induct)
  case less
  show ?case
  proof (cases rule: backtrack_cases [where i=i and j=j and xs=xs and ys=ys and dp=dp])
    case stop
    then show ?thesis by (simp add: backtrack_stop count_equal_def)
  next
    case equal
    from equal less.prems have IH:
      "int (count_equal (backtrack dp xs ys (i - 1) (j - 1) [])) = lcs_cell xs ys (i - 1) (j - 1) \<and>
       length (backtrack dp xs ys (i - 1) (j - 1) []) +
         count_equal (backtrack dp xs ys (i - 1) (j - 1) []) = (i - 1) + (j - 1)"
      by (intro less.hyps) auto
    have "lcs_cell xs ys i j = lcs_cell xs ys (i - 1) (j - 1) + 1"
      using lcs_cell_rec [of i xs j ys] equal less.prems by simp
    with IH equal show ?thesis
      by (simp add: backtrack_equal_Cons [OF equal] count_equal_def)
  next
    case insert
    from insert less.prems have IH:
      "int (count_equal (backtrack dp xs ys i (j - 1) [])) = lcs_cell xs ys i (j - 1) \<and>
       length (backtrack dp xs ys i (j - 1) []) +
         count_equal (backtrack dp xs ys i (j - 1) []) = i + (j - 1)"
      by (intro less.hyps) auto
    have "lcs_cell xs ys i j = lcs_cell xs ys i (j - 1)"
    proof (cases "i = 0")
      case True
      then show ?thesis by simp
    next
      case False
      with insert have ne: "xs ! (i - 1) \<noteq> ys ! (j - 1)"
        and ge: "dp ! i ! (j - 1) \<ge> dp ! (i - 1) ! j" by auto
      have "lcs_cell xs ys i (j - 1) \<ge> lcs_cell xs ys (i - 1) j"
        using ge dp [of i "j - 1"] dp [of "i - 1" j] less.prems by simp
      then show ?thesis
        using lcs_cell_rec [of i xs j ys] False insert less.prems ne by simp
    qed
    with IH insert show ?thesis
      by (simp add: backtrack_insert_Cons [OF insert] count_equal_def)
  next
    case delete
    from delete less.prems have IH:
      "int (count_equal (backtrack dp xs ys (i - 1) j [])) = lcs_cell xs ys (i - 1) j \<and>
       length (backtrack dp xs ys (i - 1) j []) +
         count_equal (backtrack dp xs ys (i - 1) j []) = (i - 1) + j"
      by (intro less.hyps) auto
    have "lcs_cell xs ys i j = lcs_cell xs ys (i - 1) j"
    proof (cases "j = 0")
      case True
      then show ?thesis by simp
    next
      case False
      with delete have ne: "xs ! (i - 1) \<noteq> ys ! (j - 1)"
        and lt: "dp ! i ! (j - 1) < dp ! (i - 1) ! j" by auto
      have "lcs_cell xs ys i (j - 1) < lcs_cell xs ys (i - 1) j"
        using lt dp [of i "j - 1"] dp [of "i - 1" j] less.prems by simp
      then show ?thesis
        using lcs_cell_rec [of i xs j ys] False delete less.prems ne by simp
    qed
    with IH delete show ?thesis
      by (simp add: backtrack_delete_Cons [OF delete] count_equal_def)
  qed
qed

lemma diff_lines_length:
  "length (diff_lines A B) + lcs_length (rev A) (rev B) = length A + length B"
proof -
  let ?bt = "backtrack (lcs_dp A B) A B (length A) (length B) []"
  have "int (count_equal ?bt) = lcs_cell A B (length A) (length B) \<and>
        length ?bt + count_equal ?bt = length A + length B"
    by (rule backtrack_count [OF lcs_dp_correct order_refl order_refl])
  then show ?thesis
    by (simp add: diff_lines_def lcs_cell_def)
qed

lemma diff_lines_minimal:
  assumes "patch ops A = Some B"
  shows "length (diff_lines A B) \<le> length ops"
proof -
  have "count_equal ops \<le> lcs_length (rev A) (rev B)"
    by (rule script_count_equal_bound [OF assms])
  moreover have "length ops + count_equal ops = length A + length B"
    by (rule patch_length [OF assms])
  ultimately show ?thesis
    using diff_lines_length [of A B] by linarith
qed

text \<open>The backtrack from \<open>(i, j)\<close> reads the table up to \<open>(i, j)\<close>, the first \<open>i\<close> lines
  of the one file and the first \<open>j\<close> lines of the other, and nothing else.\<close>

lemma backtrack_cong:
  assumes dp: "\<And>a b. a \<le> i \<Longrightarrow> b \<le> j \<Longrightarrow> dp ! a ! b = dp' ! a ! b"
    and xs: "\<And>k. k < i \<Longrightarrow> xs ! k = xs' ! k"
    and ys: "\<And>k. k < j \<Longrightarrow> ys ! k = ys' ! k"
  shows "backtrack dp xs ys i j [] = backtrack dp' xs' ys' i j []"
  using assms
proof (induction n \<equiv> "i + j" arbitrary: i j rule: less_induct)
  case less
  note dp = less.prems(1) and xs = less.prems(2) and ys = less.prems(3)
  show ?case
  proof (cases rule: backtrack_cases [where i=i and j=j and xs=xs and ys=ys and dp=dp])
    case stop
    then show ?thesis by (simp add: backtrack_stop)
  next
    case equal
    have e': "xs' ! (i - 1) = ys' ! (j - 1)"
      using equal xs [of "i - 1"] ys [of "j - 1"] by simp
    have IH: "backtrack dp xs ys (i - 1) (j - 1) [] = backtrack dp' xs' ys' (i - 1) (j - 1) []"
      using equal by (intro less.hyps) (auto intro: dp xs ys)
    show ?thesis
      using backtrack_equal_Cons [OF equal, of dp]
        backtrack_equal_Cons [OF equal(1) equal(2) e', of dp'] IH xs [of "i - 1"] equal
      by simp
  next
    case insert
    have c1: "\<not> (i > 0 \<and> xs' ! (i - 1) = ys' ! (j - 1))"
      using insert xs [of "i - 1"] ys [of "j - 1"] by auto
    have c2: "i = 0 \<or> dp' ! i ! (j - 1) \<ge> dp' ! (i - 1) ! j"
      using insert dp [of i "j - 1"] dp [of "i - 1" j] by auto
    have IH: "backtrack dp xs ys i (j - 1) [] = backtrack dp' xs' ys' i (j - 1) []"
      using insert by (intro less.hyps) (auto intro: dp xs ys)
    show ?thesis
      using backtrack_insert_Cons [OF insert] backtrack_insert_Cons [OF insert(1) c1 c2]
        IH ys [of "j - 1"] insert
      by simp
  next
    case delete
    have c1: "\<not> (j > 0 \<and> xs' ! (i - 1) = ys' ! (j - 1))"
      using delete xs [of "i - 1"] ys [of "j - 1"] by auto
    have c2: "\<not> (j > 0 \<and> dp' ! i ! (j - 1) \<ge> dp' ! (i - 1) ! j)"
      using delete dp [of i "j - 1"] dp [of "i - 1" j] by auto
    have IH: "backtrack dp xs ys (i - 1) j [] = backtrack dp' xs' ys' (i - 1) j []"
      using delete by (intro less.hyps) (auto intro: dp xs ys)
    show ?thesis
      using backtrack_delete_Cons [OF delete] backtrack_delete_Cons [OF delete(1) c1 c2]
        IH xs [of "i - 1"] delete
      by simp
  qed
qed

text \<open>So the backtrack of the two whole files, when it stands at \<open>(i, j)\<close>, writes from
  there on the edit script of the first \<open>i\<close> lines of the one file and the first \<open>j\<close>
  lines of the other.\<close>

lemma diff_lines_prefix:
  assumes i: "i \<le> length A" and j: "j \<le> length B"
  shows "diff_lines (take i A) (take j B) = rev (backtrack (lcs_dp A B) A B i j [])"
proof -
  have cell: "lcs_dp (take i A) (take j B) ! a ! b = lcs_dp A B ! a ! b"
    if "a \<le> i" "b \<le> j" for a b
  proof -
    have "lcs_dp (take i A) (take j B) ! a ! b = lcs_cell (take i A) (take j B) a b"
      using that i j by (intro lcs_dp_correct) simp_all
    also have "\<dots> = lcs_cell A B a b"
      using that by (simp add: lcs_cell_def min_absorb1)
    also have "\<dots> = lcs_dp A B ! a ! b"
      using that i j by (intro lcs_dp_correct [symmetric]) simp_all
    finally show ?thesis .
  qed
  have "backtrack (lcs_dp (take i A) (take j B)) (take i A) (take j B) i j [] =
        backtrack (lcs_dp A B) A B i j []"
    by (rule backtrack_cong) (simp_all add: cell)
  then show ?thesis
    using i j by (simp add: diff_lines_def min_absorb2)
qed

text \<open>
  Claim C3. In the backtrack over the table of \<open>diff_impl\<close>, whenever the current lines
  differ and the cell above equals the cell to the left, the step taken is the insertion of
  the line of the second file; in the edit script of the lines up to there, which
  \<open>diff_impl\<close> reverses after the backtrack, that insertion is therefore the last entry,
  after the script of the same lines without the inserted one. The edit script is an edit
  script: applied to the first file it gives the second. It is minimal: no script that
  turns the first file into the second has fewer entries. It is deterministic, being a
  function of the two files, whatever lines are repeated in them.
\<close>

theorem diff_tie_prefers_insertion_and_script_minimal:
  "(0 < i \<and> 0 < j \<and> A ! (i - 1) \<noteq> B ! (j - 1) \<and>
      lcs_dp A B ! (i - 1) ! j = lcs_dp A B ! i ! (j - 1) \<longrightarrow>
    backtrack (lcs_dp A B) A B i j diffs =
      backtrack (lcs_dp A B) A B i (j - 1)
        (diffs @ [\<lparr>dl_type = CHR ''+'', dl_text = B ! (j - 1), line1 = 0, line2 = int j\<rparr>])) \<and>
   (0 < i \<and> i \<le> length A \<and> 0 < j \<and> j \<le> length B \<and> A ! (i - 1) \<noteq> B ! (j - 1) \<and>
      lcs_dp A B ! (i - 1) ! j = lcs_dp A B ! i ! (j - 1) \<longrightarrow>
    diff_lines (take i A) (take j B) =
      diff_lines (take i A) (take (j - 1) B) @
        [\<lparr>dl_type = CHR ''+'', dl_text = B ! (j - 1), line1 = 0, line2 = int j\<rparr>]) \<and>
   patch (diff_lines A B) A = Some B \<and>
   (\<forall>ops. patch ops A = Some B \<longrightarrow> length (diff_lines A B) \<le> length ops)"
proof (intro conjI impI allI)
  assume "0 < i \<and> 0 < j \<and> A ! (i - 1) \<noteq> B ! (j - 1) \<and>
      lcs_dp A B ! (i - 1) ! j = lcs_dp A B ! i ! (j - 1)"
  then show "backtrack (lcs_dp A B) A B i j diffs =
      backtrack (lcs_dp A B) A B i (j - 1)
        (diffs @ [\<lparr>dl_type = CHR ''+'', dl_text = B ! (j - 1), line1 = 0, line2 = int j\<rparr>])"
    by (intro backtrack_insert) auto
next
  assume h: "0 < i \<and> i \<le> length A \<and> 0 < j \<and> j \<le> length B \<and> A ! (i - 1) \<noteq> B ! (j - 1) \<and>
      lcs_dp A B ! (i - 1) ! j = lcs_dp A B ! i ! (j - 1)"
  then have step: "backtrack (lcs_dp A B) A B i j [] =
      \<lparr>dl_type = CHR ''+'', dl_text = B ! (j - 1), line1 = 0, line2 = int j\<rparr> #
      backtrack (lcs_dp A B) A B i (j - 1) []"
    by (intro backtrack_insert_Cons) auto
  have "diff_lines (take i A) (take j B) = rev (backtrack (lcs_dp A B) A B i j [])"
    using h by (intro diff_lines_prefix) simp_all
  moreover have "diff_lines (take i A) (take (j - 1) B) =
      rev (backtrack (lcs_dp A B) A B i (j - 1) [])"
    using h by (intro diff_lines_prefix) auto
  ultimately show "diff_lines (take i A) (take j B) =
      diff_lines (take i A) (take (j - 1) B) @
        [\<lparr>dl_type = CHR ''+'', dl_text = B ! (j - 1), line1 = 0, line2 = int j\<rparr>]"
    by (simp add: step)
next
  show "patch (diff_lines A B) A = Some B"
    using backtrack_patch [of "length A" A "length B" B "lcs_dp A B"]
    by (simp add: diff_lines_def)
next
  fix ops
  assume "patch ops A = Some B"
  then show "length (diff_lines A B) \<le> length ops"
    by (rule diff_lines_minimal)
qed

text \<open>The files \<open>a b c\<close> and \<open>a x c\<close>: at \<open>(2, 2)\<close> the lines \<open>b\<close> and \<open>x\<close> differ and the
  two cells are equal. The backtrack takes the insertion of \<open>x\<close> first, so the script
  deletes \<open>b\<close> and then inserts \<open>x\<close>; the script with the two entries the other way round
  has the same length.\<close>

theorem diff_tie_witness:
  "[''a'', ''b'', ''c''] ! (2 - 1) \<noteq> [''a'', ''x'', ''c''] ! (2 - 1) \<and>
   lcs_dp [''a'', ''b'', ''c''] [''a'', ''x'', ''c''] ! (2 - 1) ! 2 =
     lcs_dp [''a'', ''b'', ''c''] [''a'', ''x'', ''c''] ! 2 ! (2 - 1) \<and>
   backtrack (lcs_dp [''a'', ''b'', ''c''] [''a'', ''x'', ''c''])
       [''a'', ''b'', ''c''] [''a'', ''x'', ''c''] 2 2 [] =
     backtrack (lcs_dp [''a'', ''b'', ''c''] [''a'', ''x'', ''c''])
       [''a'', ''b'', ''c''] [''a'', ''x'', ''c''] 2 (2 - 1)
       ([] @ [\<lparr>dl_type = CHR ''+'', dl_text = [''a'', ''x'', ''c''] ! (2 - 1), line1 = 0,
                line2 = int 2\<rparr>]) \<and>
   diff_lines (take 2 [''a'', ''b'', ''c'']) (take 2 [''a'', ''x'', ''c'']) =
     diff_lines (take 2 [''a'', ''b'', ''c'']) (take (2 - 1) [''a'', ''x'', ''c'']) @
       [\<lparr>dl_type = CHR ''+'', dl_text = [''a'', ''x'', ''c''] ! (2 - 1), line1 = 0,
          line2 = int 2\<rparr>] \<and>
   diff_lines [''a'', ''b'', ''c''] [''a'', ''x'', ''c''] =
     [\<lparr>dl_type = CHR '' '', dl_text = ''a'', line1 = 1, line2 = 1\<rparr>,
      \<lparr>dl_type = CHR ''-'', dl_text = ''b'', line1 = 2, line2 = 0\<rparr>,
      \<lparr>dl_type = CHR ''+'', dl_text = ''x'', line1 = 0, line2 = 2\<rparr>,
      \<lparr>dl_type = CHR '' '', dl_text = ''c'', line1 = 3, line2 = 3\<rparr>] \<and>
   patch (diff_lines [''a'', ''b'', ''c''] [''a'', ''x'', ''c'']) [''a'', ''b'', ''c''] =
     Some [''a'', ''x'', ''c''] \<and>
   patch [\<lparr>dl_type = CHR '' '', dl_text = ''a'', line1 = 1, line2 = 1\<rparr>,
          \<lparr>dl_type = CHR ''+'', dl_text = ''x'', line1 = 0, line2 = 2\<rparr>,
          \<lparr>dl_type = CHR ''-'', dl_text = ''b'', line1 = 2, line2 = 0\<rparr>,
          \<lparr>dl_type = CHR '' '', dl_text = ''c'', line1 = 3, line2 = 3\<rparr>]
     [''a'', ''b'', ''c''] = Some [''a'', ''x'', ''c''] \<and>
   length (diff_lines [''a'', ''b'', ''c''] [''a'', ''x'', ''c'']) \<le>
     length [\<lparr>dl_type = CHR '' '', dl_text = ''a'', line1 = 1, line2 = 1\<rparr>,
             \<lparr>dl_type = CHR ''+'', dl_text = ''x'', line1 = 0, line2 = 2\<rparr>,
             \<lparr>dl_type = CHR ''-'', dl_text = ''b'', line1 = 2, line2 = 0\<rparr>,
             \<lparr>dl_type = CHR '' '', dl_text = ''c'', line1 = 3, line2 = 3\<rparr>]"
proof -
  let ?A = "[''a'', ''b'', ''c'']" and ?B = "[''a'', ''x'', ''c'']"
  let ?ops = "[\<lparr>dl_type = CHR '' '', dl_text = ''a'', line1 = 1, line2 = 1\<rparr>,
               \<lparr>dl_type = CHR ''+'', dl_text = ''x'', line1 = 0, line2 = 2\<rparr>,
               \<lparr>dl_type = CHR ''-'', dl_text = ''b'', line1 = 2, line2 = 0\<rparr>,
               \<lparr>dl_type = CHR '' '', dl_text = ''c'', line1 = 3, line2 = 3\<rparr>]"
  have ne: "?A ! (2 - 1) \<noteq> ?B ! (2 - 1)"
    by code_simp
  have tie: "lcs_dp ?A ?B ! (2 - 1) ! 2 = lcs_dp ?A ?B ! 2 ! (2 - 1)"
    by code_simp
  have h: "0 < (2::nat) \<and> 0 < (2::nat) \<and> ?A ! (2 - 1) \<noteq> ?B ! (2 - 1) \<and>
           lcs_dp ?A ?B ! (2 - 1) ! 2 = lcs_dp ?A ?B ! 2 ! (2 - 1)"
    using ne tie by simp
  have h2: "0 < (2::nat) \<and> 2 \<le> length ?A \<and> 0 < (2::nat) \<and> 2 \<le> length ?B \<and>
           ?A ! (2 - 1) \<noteq> ?B ! (2 - 1) \<and>
           lcs_dp ?A ?B ! (2 - 1) ! 2 = lcs_dp ?A ?B ! 2 ! (2 - 1)"
    using ne tie by simp
  have p: "patch ?ops ?A = Some ?B"
    by code_simp
  have v: "diff_lines ?A ?B =
     [\<lparr>dl_type = CHR '' '', dl_text = ''a'', line1 = 1, line2 = 1\<rparr>,
      \<lparr>dl_type = CHR ''-'', dl_text = ''b'', line1 = 2, line2 = 0\<rparr>,
      \<lparr>dl_type = CHR ''+'', dl_text = ''x'', line1 = 0, line2 = 2\<rparr>,
      \<lparr>dl_type = CHR '' '', dl_text = ''c'', line1 = 3, line2 = 3\<rparr>]"
    by code_simp
  note inst = diff_tie_prefers_insertion_and_script_minimal [of 2 2 ?A ?B "[]"]
  have step: "backtrack (lcs_dp ?A ?B) ?A ?B 2 2 [] =
     backtrack (lcs_dp ?A ?B) ?A ?B 2 (2 - 1)
       ([] @ [\<lparr>dl_type = CHR ''+'', dl_text = ?B ! (2 - 1), line1 = 0, line2 = int 2\<rparr>])"
    by (rule inst [THEN conjunct1, THEN mp, OF h])
  have script: "diff_lines (take 2 ?A) (take 2 ?B) =
     diff_lines (take 2 ?A) (take (2 - 1) ?B) @
       [\<lparr>dl_type = CHR ''+'', dl_text = ?B ! (2 - 1), line1 = 0, line2 = int 2\<rparr>]"
    by (rule inst [THEN conjunct2, THEN conjunct1, THEN mp, OF h2])
  have round: "patch (diff_lines ?A ?B) ?A = Some ?B"
    by (rule inst [THEN conjunct2, THEN conjunct2, THEN conjunct1])
  have least: "length (diff_lines ?A ?B) \<le> length ?ops"
    by (rule inst [THEN conjunct2, THEN conjunct2, THEN conjunct2, THEN spec, THEN mp, OF p])
  show ?thesis
    by (rule conjI [OF ne conjI [OF tie conjI [OF step conjI [OF script conjI [OF v
          conjI [OF round conjI [OF p least]]]]]]])
qed
section \<open>cmp\<close>

declare cmp_loop.simps [simp del]

lemma cmp_loop_end1:
  "cmp_loop \<lparr>unread = [], good = True\<rparr> ifs2 off ln =
     (\<lparr>unread = [], good = False\<rparr>, ifs2, off, ln, True)"
  by (subst cmp_loop.simps) (simp add: stream_get_def)

lemma cmp_loop_end2:
  "cmp_loop \<lparr>unread = a # A, good = True\<rparr> \<lparr>unread = [], good = True\<rparr> off ln =
     (\<lparr>unread = A, good = True\<rparr>, \<lparr>unread = [], good = False\<rparr>, off, ln, True)"
  by (subst cmp_loop.simps) (simp add: stream_get_def)

lemma cmp_loop_step:
  "cmp_loop \<lparr>unread = a # A, good = True\<rparr> \<lparr>unread = b # B, good = True\<rparr> off ln =
     (if a \<noteq> b
      then (\<lparr>unread = A, good = True\<rparr>, \<lparr>unread = B, good = True\<rparr>, off + 1,
            (if a = newline then ln + 1 else ln), False)
      else cmp_loop \<lparr>unread = A, good = True\<rparr> \<lparr>unread = B, good = True\<rparr> (off + 1)
             (if a = newline then ln + 1 else ln))"
  by (subst cmp_loop.simps) (simp add: stream_get_def Let_def)

lemma cmp_loop_identical:
  "(case cmp_loop \<lparr>unread = A, good = True\<rparr> \<lparr>unread = B, good = True\<rparr> off ln of
      (ifs1, ifs2, off', ln', ident) \<Rightarrow>
        ident \<and> fst (stream_get ifs1) = None \<and> fst (stream_get ifs2) = None)
   \<longleftrightarrow> (A = B \<or> (\<exists>c. A = B @ [c]))"
proof (induction A arbitrary: B off ln)
  case Nil
  show ?case
    by (cases B) (simp_all add: cmp_loop_end1 stream_get_def)
next
  case (Cons a A)
  show ?case
  proof (cases B)
    case Nil
    then show ?thesis
      by (cases A) (simp_all add: cmp_loop_end2 stream_get_def)
  next
    case (Cons b B')
    with Cons.IH [of B'] show ?thesis
      by (simp add: cmp_loop_step)
  qed
qed

lemma cmp_identical_iff:
  "identical (cmp_bytes file1 file2 silent A B) \<longleftrightarrow> (A = B \<or> (\<exists>c. A = B @ [c]))"
proof -
  obtain ifs1 ifs2 off' ln' ident where
    l: "cmp_loop \<lparr>unread = A, good = True\<rparr> \<lparr>unread = B, good = True\<rparr> 0 1 =
          (ifs1, ifs2, off', ln', ident)"
    by (metis prod_cases5)
  have "identical (cmp_bytes file1 file2 silent A B) \<longleftrightarrow>
          (ident \<and> fst (stream_get ifs1) = None \<and> fst (stream_get ifs2) = None)"
    by (auto simp: cmp_bytes_def l Let_def split: prod.splits option.splits)
  with cmp_loop_identical [of A B 0 1] l show ?thesis
    by simp
qed

text \<open>Where both files have a byte and the bytes differ, the report is the one of the
  claim: the offset of that byte, and one plus the newlines of the first file up to and
  including it.\<close>

lemma cmp_loop_mismatch:
  "a \<noteq> b \<Longrightarrow>
   cmp_loop \<lparr>unread = P @ a # A, good = True\<rparr> \<lparr>unread = P @ b # B, good = True\<rparr> off ln =
     (\<lparr>unread = A, good = True\<rparr>, \<lparr>unread = B, good = True\<rparr>,
      off + int (length P) + 1, ln + int (length (filter (\<lambda>c. c = newline) (P @ [a]))), False)"
  by (induction P arbitrary: off ln) (simp_all add: cmp_loop_step)

lemma cmp_first_mismatch:
  assumes "a \<noteq> b"
  shows "identical (cmp_bytes file1 file2 False (P @ a # A) (P @ b # B)) = False \<and>
         byte_offset (cmp_bytes file1 file2 False (P @ a # A) (P @ b # B)) =
           Some (int (length P) + 1) \<and>
         line_number (cmp_bytes file1 file2 False (P @ a # A) (P @ b # B)) =
           Some (1 + int (length (filter (\<lambda>c. c = newline) (P @ [a]))))"
  by (simp add: cmp_bytes_def cmp_loop_mismatch [OF assms] stream_get_def Let_def)

text \<open>
  Claim C9 says that \<open>identical\<close> is true exactly when the two byte sequences are equal.
  The code reports \<open>identical\<close> also when the first file is the second file followed by
  one more byte (lemma \<open>cmp_identical_iff\<close>): the loop condition has already consumed
  that byte from the first file when the second file ends, and the test after the loop
  finds both streams exhausted. Here the files hold \<open>ab\<close> and \<open>a\<close>.
\<close>

theorem cmp_prefix_plus_one_identical:
  "cmp_bytes ''f1'' ''f2'' False ''ab'' ''a'' =
     \<lparr>identical = True, byte_offset = None, line_number = None, message = None\<rparr>"
  by code_simp

section \<open>comm\<close>

lemma set_set_insert: "set (set_insert x s) = insert x (set s)"
  by (induction s) auto

lemma sorted_set_insert: "sorted_wrt (<) s \<Longrightarrow> sorted_wrt (<) (set_insert x s)"
  by (induction s) (auto simp: set_set_insert)

lemma foldl_set_insert:
  "sorted_wrt (<) s \<Longrightarrow>
   sorted_wrt (<) (foldl (\<lambda>s x. set_insert x s) s xs) \<and>
   set (foldl (\<lambda>s x. set_insert x s) s xs) = set s \<union> set xs"
  by (induction xs arbitrary: s) (auto simp: set_set_insert sorted_set_insert)

lemma set_of_range_sorted: "sorted_wrt (<) (set_of_range xs)"
  using foldl_set_insert [of "[]" xs] by (simp add: set_of_range_def)

lemma set_of_range_set: "set (set_of_range xs) = set xs"
  using foldl_set_insert [of "[]" xs] by (simp add: set_of_range_def)

lemma strict_sorted_unique:
  "sorted_wrt (<) xs \<Longrightarrow> sorted_wrt (<) ys \<Longrightarrow> set xs = set ys \<Longrightarrow> xs = (ys :: 'a::linorder list)"
  by (metis sorted_distinct_set_unique strict_sorted_iff)

lemma set_of_range_cong: "set xs = set ys \<Longrightarrow> set_of_range xs = set_of_range ys"
  by (rule strict_sorted_unique) (simp_all add: set_of_range_sorted set_of_range_set)

lemma set_count_iff: "set_count s x = 0 \<longleftrightarrow> x \<notin> set s"
  by (simp add: set_count_def)

lemma comm_loop1_eq:
  "comm_loop1 set2 s (both, only1) =
     (both @ filter (\<lambda>l. l \<in> set set2) s, only1 @ filter (\<lambda>l. l \<notin> set set2) s)"
  by (induction s arbitrary: both only1) (auto simp: set_count_iff)

lemma comm_loop2_eq:
  "comm_loop2 set1 s only2 = only2 @ filter (\<lambda>l. l \<notin> set set1) s"
  by (induction s arbitrary: only2) (auto simp: set_count_iff)

lemma comm_lines_eq:
  "comm_lines A B =
     \<lparr> only_in_first = filter (\<lambda>l. l \<notin> set B) (set_of_range A),
       only_in_second = filter (\<lambda>l. l \<notin> set A) (set_of_range B),
       in_both = filter (\<lambda>l. l \<in> set B) (set_of_range A) \<rparr>"
  by (simp add: comm_lines_def Let_def comm_loop1_eq comm_loop2_eq set_of_range_set)

text \<open>
  Claim C8. For all line sequences \<open>A\<close> and \<open>B\<close>, the three lists of \<open>comm_impl\<close> satisfy:
  \<open>only_in_first\<close> with \<open>in_both\<close> holds exactly the distinct lines of \<open>A\<close>,
  \<open>only_in_second\<close> with \<open>in_both\<close> exactly the distinct lines of \<open>B\<close>, the three
  are pairwise disjoint, and no list holds a line twice: a line repeated within a file is
  a member once.
\<close>

theorem comm_partition:
  "set (only_in_first (comm_lines A B)) \<union> set (in_both (comm_lines A B)) = set A \<and>
   set (only_in_second (comm_lines A B)) \<union> set (in_both (comm_lines A B)) = set B \<and>
   set (only_in_first (comm_lines A B)) \<inter> set (only_in_second (comm_lines A B)) = {} \<and>
   set (only_in_first (comm_lines A B)) \<inter> set (in_both (comm_lines A B)) = {} \<and>
   set (only_in_second (comm_lines A B)) \<inter> set (in_both (comm_lines A B)) = {} \<and>
   distinct (only_in_first (comm_lines A B)) \<and>
   distinct (only_in_second (comm_lines A B)) \<and>
   distinct (in_both (comm_lines A B))"
proof -
  let ?r = "comm_lines A B"
  have d: "distinct (filter P (set_of_range xs))" for P and xs :: "string list"
    using sorted_wrt_filter [OF set_of_range_sorted [of xs], of P]
    by (simp add: strict_sorted_iff)
  have "set (only_in_first ?r) \<union> set (in_both ?r) = set A"
    by (auto simp: comm_lines_eq set_of_range_set)
  moreover have "set (only_in_second ?r) \<union> set (in_both ?r) = set B"
    by (auto simp: comm_lines_eq set_of_range_set)
  moreover have "set (only_in_first ?r) \<inter> set (only_in_second ?r) = {}"
    by (auto simp: comm_lines_eq set_of_range_set)
  moreover have "set (only_in_first ?r) \<inter> set (in_both ?r) = {}"
    by (auto simp: comm_lines_eq set_of_range_set)
  moreover have "set (only_in_second ?r) \<inter> set (in_both ?r) = {}"
    by (auto simp: comm_lines_eq set_of_range_set)
  moreover have "distinct (only_in_first ?r)" "distinct (only_in_second ?r)"
    "distinct (in_both ?r)"
    by (simp_all only: comm_lines_eq comm_result.simps d)
  ultimately show ?thesis
    by (intro conjI)
qed

text \<open>The line \<open>b\<close> stands twice in the first file and once in the second: it is in
  \<open>in_both\<close> once.\<close>

theorem comm_partition_witness:
  "comm_lines [''b'', ''a'', ''b'', ''c'', ''a''] [''b'', ''d'', ''b''] =
     \<lparr> only_in_first = [''a'', ''c''], only_in_second = [''d''], in_both = [''b''] \<rparr> \<and>
   set (only_in_first (comm_lines [''b'', ''a'', ''b'', ''c'', ''a''] [''b'', ''d'', ''b''])) \<union>
   set (in_both (comm_lines [''b'', ''a'', ''b'', ''c'', ''a''] [''b'', ''d'', ''b''])) =
     set [''b'', ''a'', ''b'', ''c'', ''a''] \<and>
   distinct (in_both (comm_lines [''b'', ''a'', ''b'', ''c'', ''a''] [''b'', ''d'', ''b'']))"
proof -
  note inst = comm_partition [of "[''b'', ''a'', ''b'', ''c'', ''a'']" "[''b'', ''d'', ''b'']"]
  have v: "comm_lines [''b'', ''a'', ''b'', ''c'', ''a''] [''b'', ''d'', ''b''] =
     \<lparr> only_in_first = [''a'', ''c''], only_in_second = [''d''], in_both = [''b''] \<rparr>"
    by code_simp
  have u: "set (only_in_first (comm_lines [''b'', ''a'', ''b'', ''c'', ''a''] [''b'', ''d'', ''b''])) \<union>
   set (in_both (comm_lines [''b'', ''a'', ''b'', ''c'', ''a''] [''b'', ''d'', ''b''])) =
     set [''b'', ''a'', ''b'', ''c'', ''a'']"
    by (rule inst [THEN conjunct1])
  have d: "distinct (in_both (comm_lines [''b'', ''a'', ''b'', ''c'', ''a''] [''b'', ''d'', ''b'']))"
    by (rule inst [THEN conjunct2, THEN conjunct2, THEN conjunct2, THEN conjunct2,
          THEN conjunct2, THEN conjunct2, THEN conjunct2])
  show ?thesis
    by (rule conjI [OF v conjI [OF u d]])
qed

text \<open>
  Claim C10. Each of the three lists of \<open>comm_impl\<close> is in strictly ascending byte-wise
  lexicographic order, hence without duplicates, and the result depends only on the sets
  of lines of the two files: not on the order of the lines, nor on their repetitions.
\<close>

theorem comm_sorted:
  "sorted_wrt (<) (only_in_first (comm_lines A B)) \<and>
   sorted_wrt (<) (only_in_second (comm_lines A B)) \<and>
   sorted_wrt (<) (in_both (comm_lines A B)) \<and>
   distinct (only_in_first (comm_lines A B)) \<and>
   distinct (only_in_second (comm_lines A B)) \<and>
   distinct (in_both (comm_lines A B)) \<and>
   (\<forall>A' B'. set A' = set A \<and> set B' = set B \<longrightarrow> comm_lines A' B' = comm_lines A B)"
proof -
  let ?r = "comm_lines A B"
  have s: "sorted_wrt (<) (filter P (set_of_range xs))" for P and xs :: "string list"
    by (rule sorted_wrt_filter) (rule set_of_range_sorted)
  have d: "distinct (filter P (set_of_range xs))" for P and xs :: "string list"
    using s [of P xs] by (simp add: strict_sorted_iff)
  have c: "comm_lines A' B' = comm_lines A B" if "set A' = set A \<and> set B' = set B" for A' B'
  proof -
    have "set_of_range A' = set_of_range A"
      by (rule set_of_range_cong) (rule conjunct1 [OF that])
    moreover have "set_of_range B' = set_of_range B"
      by (rule set_of_range_cong) (rule conjunct2 [OF that])
    ultimately show ?thesis
      by (simp add: comm_lines_eq that)
  qed
  have "sorted_wrt (<) (only_in_first ?r)" "sorted_wrt (<) (only_in_second ?r)"
    "sorted_wrt (<) (in_both ?r)"
    by (simp_all add: comm_lines_eq s)
  moreover have "distinct (only_in_first ?r)" "distinct (only_in_second ?r)"
    "distinct (in_both ?r)"
    by (simp_all only: comm_lines_eq comm_result.simps d)
  moreover have "\<forall>A' B'. set A' = set A \<and> set B' = set B \<longrightarrow> comm_lines A' B' = ?r"
    by (intro allI impI) (rule c)
  ultimately show ?thesis
    by (intro conjI)
qed

theorem comm_sorted_witness:
  "set [''c'', ''a'', ''b'', ''a''] = set [''a'', ''b'', ''c''] \<and>
   set [''d'', ''c'', ''c''] = set [''c'', ''d''] \<and>
   comm_lines [''c'', ''a'', ''b'', ''a''] [''d'', ''c'', ''c''] =
     comm_lines [''a'', ''b'', ''c''] [''c'', ''d''] \<and>
   comm_lines [''a'', ''b'', ''c''] [''c'', ''d''] =
     \<lparr> only_in_first = [''a'', ''b''], only_in_second = [''d''], in_both = [''c''] \<rparr>"
proof -
  have h: "set [''c'', ''a'', ''b'', ''a''] = set [''a'', ''b'', ''c''] \<and>
           set [''d'', ''c'', ''c''] = set [''c'', ''d'']"
    by code_simp
  have e: "comm_lines [''c'', ''a'', ''b'', ''a''] [''d'', ''c'', ''c''] =
           comm_lines [''a'', ''b'', ''c''] [''c'', ''d'']"
    by (rule comm_sorted [of "[''a'', ''b'', ''c'']" "[''c'', ''d'']", THEN conjunct2,
          THEN conjunct2, THEN conjunct2, THEN conjunct2, THEN conjunct2, THEN conjunct2,
          rule_format, OF h])
  have v: "comm_lines [''a'', ''b'', ''c''] [''c'', ''d''] =
     \<lparr> only_in_first = [''a'', ''b''], only_in_second = [''d''], in_both = [''c''] \<rparr>"
    by code_simp
  show ?thesis
    by (rule conjI [OF conjunct1 [OF h] conjI [OF conjunct2 [OF h] conjI [OF e v]]])
qed

section \<open>cut\<close>





section \<open>join\<close>

lemma set_mm_emplace: "set (mm_emplace k v m) = insert (k, v) (set m)"
  by (induction m) (auto split: if_splits)

lemma mm_emplace_sorted:
  "sorted (map fst m) \<Longrightarrow> sorted (map fst (mm_emplace k v m))"
proof (induction m)
  case Nil
  then show ?case by simp
next
  case (Cons e m)
  obtain k' v' where e: "e = (k', v')" by (cases e)
  show ?case
  proof (cases "k < k'")
    case True
    with Cons.prems e show ?thesis by (auto simp: less_imp_le)
  next
    case False
    with Cons e show ?thesis by (auto simp: set_mm_emplace)
  qed
qed

lemma mm_emplace_filter:
  "sorted (map fst m) \<Longrightarrow>
   filter (\<lambda>e. fst e = k') (mm_emplace k v m) =
     filter (\<lambda>e. fst e = k') m @ (if k = k' then [(k, v)] else [])"
proof (induction m)
  case Nil
  then show ?case by simp
next
  case (Cons e m)
  obtain k1 v1 where e: "e = (k1, v1)" by (cases e)
  show ?case
  proof (cases "k < k1")
    case True
    have "filter (\<lambda>e. fst e = k) (e # m) = []"
      using True Cons.prems e by (auto simp: filter_empty_conv)
    with True e show ?thesis by auto
  next
    case False
    with Cons e show ?thesis by auto
  qed
qed

lemma takeWhile_equal_keys:
  "sorted (map fst m) \<Longrightarrow> \<forall>e \<in> set m. k \<le> fst e \<Longrightarrow>
   takeWhile (\<lambda>e. \<not> k < fst e) m = filter (\<lambda>e. fst e = k) m"
proof (induction m)
  case Nil
  then show ?case by simp
next
  case (Cons e m)
  show ?case
  proof (cases "k < fst e")
    case True
    then have "filter (\<lambda>e. fst e = k) (e # m) = []"
      using Cons.prems by (auto simp: filter_empty_conv)
    with True show ?thesis by simp
  next
    case False
    with Cons show ?thesis by auto
  qed
qed

lemma equal_range_filter:
  "sorted (map fst m) \<Longrightarrow> equal_range m k = filter (\<lambda>e. fst e = k) m"
proof (induction m)
  case Nil
  then show ?case by (simp add: equal_range_def)
next
  case (Cons e m)
  show ?case
  proof (cases "fst e < k")
    case True
    with Cons show ?thesis by (simp add: equal_range_def)
  next
    case False
    then have "\<forall>x \<in> set (e # m). k \<le> fst x"
      using Cons.prems by auto
    with False Cons.prems takeWhile_equal_keys [of "e # m" k] show ?thesis
      by (simp add: equal_range_def)
  qed
qed

lemma build_index_inv:
  "sorted (map fst m) \<Longrightarrow>
   sorted (map fst (foldl (\<lambda>index2 line. mm_emplace (key line) line index2) m ls)) \<and>
   filter (\<lambda>e. fst e = k) (foldl (\<lambda>index2 line. mm_emplace (key line) line index2) m ls) =
     filter (\<lambda>e. fst e = k) m @ map (\<lambda>b. (k, b)) (filter (\<lambda>b. key b = k) ls)"
proof (induction ls arbitrary: m)
  case Nil
  then show ?case by simp
next
  case (Cons l ls)
  from Cons.IH [OF mm_emplace_sorted [OF Cons.prems, of "key l" l]] Cons.prems
  show ?case by (simp add: mm_emplace_filter)
qed

lemma equal_range_build_index:
  "equal_range (build_index sep field2 lines2) k =
     map (\<lambda>b. (k, b)) (filter (\<lambda>b. get_field sep b field2 = k) lines2)"
  using build_index_inv [of "[]" "\<lambda>line. get_field sep line field2" lines2 k]
  by (simp add: build_index_def equal_range_filter)

lemma foldl_write: "foldl (\<lambda>oss it. oss @ [g it]) oss its = oss @ map g its"
  by (induction its arbitrary: oss) auto

lemma join_loop_eq:
  "join_loop sep field1 index2 lines1 oss =
     oss @ concat (map (\<lambda>a. map (\<lambda>it. a @ [sep] @ snd it @ [newline])
                              (equal_range index2 (get_field sep a field1))) lines1)"
  by (induction lines1 arbitrary: oss) (simp_all add: foldl_write)

text \<open>
  Claim C7. For every pair of files, the rows \<open>join_impl\<close> writes are, for each line
  \<open>a\<close> of the first file in turn, one row per line \<open>b\<close> of the second file whose key
  equals the key of \<open>a\<close> (in the order of the second file), each row being \<open>a\<close>, the
  separator, \<open>b\<close> and a newline. So a line with \<open>k\<close> matches gives \<open>k\<close> rows, a
  line with no match gives none, and the number of rows is the sum of the match counts.
  The returned string is the concatenation of the rows.
\<close>

theorem join_cardinality:
  "join_rows sep field1 field2 A B =
     concat (map (\<lambda>a. map (\<lambda>b. a @ [sep] @ b @ [newline])
                        (filter (\<lambda>b. get_field sep b field2 = get_field sep a field1) B)) A) \<and>
   length (join_rows sep field1 field2 A B) =
     (\<Sum>a\<leftarrow>A. length (filter (\<lambda>b. get_field sep b field2 = get_field sep a field1) B)) \<and>
   join_lines sep field1 field2 A B = concat (join_rows sep field1 field2 A B)"
proof -
  have rows: "join_rows sep field1 field2 A B =
     concat (map (\<lambda>a. map (\<lambda>b. a @ [sep] @ b @ [newline])
                        (filter (\<lambda>b. get_field sep b field2 = get_field sep a field1) B)) A)"
    by (simp add: join_rows_def join_loop_eq equal_range_build_index comp_def)
  have "length (concat (map (\<lambda>a. map (f a) (filter (P a) B)) A)) =
        (\<Sum>a\<leftarrow>A. length (filter (P a) B))" for f :: "string \<Rightarrow> string \<Rightarrow> string" and P
    by (induction A) simp_all
  with rows show ?thesis
    by (simp add: join_lines_def)
qed

theorem join_cardinality_witness:
  "join_rows (CHR '','') 1 2 [''k1,a'', ''k2,b'', ''k3,c''] [''x,k1'', ''y,k3'', ''z,k1''] =
     [''k1,a,x,k1'' @ [newline], ''k1,a,z,k1'' @ [newline], ''k3,c,y,k3'' @ [newline]]"
proof -
  have "join_rows (CHR '','') 1 2 [''k1,a'', ''k2,b'', ''k3,c''] [''x,k1'', ''y,k3'', ''z,k1''] =
     concat (map (\<lambda>a. map (\<lambda>b. a @ [CHR '',''] @ b @ [newline])
                        (filter (\<lambda>b. get_field (CHR '','') b 2 = get_field (CHR '','') a 1)
                           [''x,k1'', ''y,k3'', ''z,k1''])) [''k1,a'', ''k2,b'', ''k3,c''])"
    by (rule conjunct1 [OF join_cardinality])
  also have "\<dots> = [''k1,a,x,k1'' @ [newline], ''k1,a,z,k1'' @ [newline], ''k3,c,y,k3'' @ [newline]]"
    by code_simp
  finally show ?thesis .
qed

end
